theory Spec2Isabelle
  imports Main "HOL-Library.Word" "HOL-Library.Multiset"
begin

section \<open>The IR data model of llvm-remove-addrspaces.cpp\<close>

text \<open>
  An address space is an \<^verbatim>\<open>unsigned\<close>; the policy
  (\<^verbatim>\<open>AddrspaceRemapFunction = std::function<unsigned(unsigned)>\<close>, line 22) maps one to
  another.
\<close>

type_synonym addrspace = "32 word"

type_synonym AddrspaceRemapFunction = "addrspace \<Rightarrow> addrspace"

text \<open>
  The type kinds \<^verbatim>\<open>remapType\<close> tells apart with \<^verbatim>\<open>dyn_cast\<close>. A pointer carries its
  address space only (\<^verbatim>\<open>PointerType::get(Context, AddressSpace)\<close>, line 47). A literal
  struct is interned by its elements; an identified struct is an object of the context, named
  here by its index in the context, with a name and a body that can be set after creation.
  \<open>OtherType\<close> stands for every kind the function passes through (void, integers,
  floating point, labels, ...).
\<close>

datatype Type =
    OtherType nat
  | PointerType addrspace
  | FunctionType Type "Type list" bool
  | LiteralStruct "Type list" bool
  | IdentifiedStruct nat
  | ArrayType Type nat
  | VectorType Type nat bool

text \<open>
  \<^verbatim>\<open>Type::getPointerAddressSpace()\<close> is
  \<^verbatim>\<open>cast<PointerType>(getScalarType())->getAddressSpace()\<close>: the address space of a
  pointer or of a vector of pointers; the cast asserts on anything else.
\<close>

fun getPointerAddressSpace :: "Type \<Rightarrow> addrspace option" where
  "getPointerAddressSpace (PointerType a) = Some a"
| "getPointerAddressSpace (VectorType (PointerType a) n s) = Some a"
| "getPointerAddressSpace T = None"

datatype Opcode = AddrSpaceCast | GetElementPtr | OtherOpcode nat

text \<open>
  Constants carry their type. A value is a constant, a function argument or the result of
  an instruction; the latter is named by the identity of the instruction and has the type
  of that instruction.
\<close>

datatype Constant =
    ConstantData nat Type
  | GlobalValue nat Type
  | ConstantAggregate "Constant list" Type
  | ConstantExpr Opcode "Constant list" Type

fun getType :: "Constant \<Rightarrow> Type" where
  "getType (ConstantData n T) = T"
| "getType (GlobalValue g T) = T"
| "getType (ConstantAggregate cs T) = T"
| "getType (ConstantExpr opc cs T) = T"

datatype Value = Const Constant | Argument nat Type | InstructionValue nat

record Instruction =
  inst_id :: nat
  opcode :: Opcode
  operands :: "Value list"
  inst_type :: Type

record Function =
  fn_name :: string
  fn_type :: Type
  fn_linkage :: nat
  fn_addrspace :: addrspace
  fn_body :: "Instruction list"

text \<open>
  What stops the C++ instead of returning: a failed \<^verbatim>\<open>cast<>\<close>, a missing operand,
  a reference to an instruction the function does not hold,
  \<^verbatim>\<open>replaceAllUsesWith\<close> of a value with itself (which LLVM asserts against and which
  never empties the use list otherwise), and the dereference of a null value.
\<close>

datatype error =
  NotAPointer | NoOperand | DanglingReference | ReplacedWithItself | NullValue | NoResult |
  NotAFunctionType

section \<open>The context: identified structs and their names\<close>

text \<open>
  An identified struct has a name (empty when it has none, \<^verbatim>\<open>hasName()\<close> false), a body
  (\<open>None\<close> while it is opaque) and the packed flag. The context holds the identified
  structs, addressed by their index, and the counter \<^verbatim>\<open>NamedStructTypesUniqueID\<close> that
  \<^verbatim>\<open>StructType::setName\<close> draws from. The remapper adds its memo \<^verbatim>\<open>MappedTypes\<close>
  (line 107), where an absent key and a null entry are the same (line 41-43).
\<close>

record StructInfo =
  struct_name :: string
  struct_body :: "Type list option"
  struct_packed :: bool

record RemapState =
  structs :: "StructInfo list"
  NamedStructTypesUniqueID :: nat
  MappedTypes :: "Type \<rightharpoonup> Type"

text \<open>
  \<^verbatim>\<open>StructType::setName\<close> is LLVM's, not this file's. Its contract, as used at lines 75-76:
  setting the name a struct already has changes nothing; an empty name removes the name;
  a name no other struct of the context has is taken as it is; a name that is taken gets
  a dot and the decimal of the context's counter appended, the counter stepping until the
  result is free. The loop ends because only finitely many names are taken; the lemmas
  before \<open>nextUnique\<close> are that argument.
\<close>

definition digit :: "nat \<Rightarrow> char" where
  "digit d = ''0123456789'' ! d"

function decimal :: "nat \<Rightarrow> string" where
  "decimal n = (if n < 10 then [digit n] else decimal (n div 10) @ [digit (n mod 10)])"
  by pat_completeness auto
termination
  by (relation "measure id") auto

declare decimal.simps [simp del]

definition numbered :: "string \<Rightarrow> nat \<Rightarrow> string" where
  "numbered Name k = Name @ ''.'' @ decimal k"

lemma digit_inj: "a < 10 \<Longrightarrow> b < 10 \<Longrightarrow> digit a = digit b \<Longrightarrow> a = b"
proof -
  assume a: "a < 10" and b: "b < 10" and e: "digit a = digit b"
  have "distinct ''0123456789''" by simp
  then show "a = b" using a b e unfolding digit_def
    by (subst (asm) nth_eq_iff_index_eq) simp_all
qed

lemma decimal_nonempty: "decimal n \<noteq> []"
  by (subst decimal.simps) simp

lemma decimal_inj: "decimal n = decimal m \<Longrightarrow> n = m"
proof (induction n arbitrary: m rule: decimal.induct)
  case (1 n)
  show ?case
  proof (cases "n < 10")
    case True
    then have dn: "decimal n = [digit n]" by (subst decimal.simps) simp
    show ?thesis
    proof (cases "m < 10")
      case m: True
      then have "decimal m = [digit m]" by (subst decimal.simps) simp
      then show ?thesis using dn 1(2) True m digit_inj by simp
    next
      case False
      then have "decimal m = decimal (m div 10) @ [digit (m mod 10)]"
        by (subst decimal.simps) simp
      then show ?thesis using dn 1(2) decimal_nonempty [of "m div 10"] by simp
    qed
  next
    case False
    then have dn: "decimal n = decimal (n div 10) @ [digit (n mod 10)]"
      by (subst decimal.simps) simp
    show ?thesis
    proof (cases "m < 10")
      case True
      then have "decimal m = [digit m]" by (subst decimal.simps) simp
      then show ?thesis using dn 1(2) decimal_nonempty [of "n div 10"] by simp
    next
      case m: False
      then have dm: "decimal m = decimal (m div 10) @ [digit (m mod 10)]"
        by (subst decimal.simps) simp
      from dn dm 1(2) have e: "decimal (n div 10) = decimal (m div 10)"
        "digit (n mod 10) = digit (m mod 10)" by simp_all
      have "n div 10 = m div 10" using 1(1) [OF False e(1)] .
      moreover have "n mod 10 = m mod 10" using digit_inj [OF _ _ e(2)] by simp
      ultimately show ?thesis by (metis div_mult_mod_eq)
    qed
  qed
qed

lemma numbered_inj: "numbered Name k = numbered Name j \<Longrightarrow> k = j"
  by (simp add: numbered_def decimal_inj)

lemma finite_numbered_taken: "finite {j. numbered Name j \<in> set taken}"
proof -
  have "{j. numbered Name j \<in> set taken} = numbered Name -` set taken" by auto
  moreover have "inj (numbered Name)" by (auto intro: injI numbered_inj)
  ultimately show ?thesis by (simp add: finite_vimageI)
qed

function nextUnique :: "string list \<Rightarrow> string \<Rightarrow> nat \<Rightarrow> nat" where
  "nextUnique taken Name k =
     (if numbered Name k \<in> set taken then nextUnique taken Name (Suc k) else k)"
  by pat_completeness auto
termination
proof (relation "measure (\<lambda>(taken, Name, k). card {j. k \<le> j \<and> numbered Name j \<in> set taken})")
  show "wf (measure (\<lambda>(taken, Name, k). card {j. k \<le> j \<and> numbered Name j \<in> set taken}))"
    by simp
next
  fix taken :: "string list" and Name :: string and k :: nat
  assume k: "numbered Name k \<in> set taken"
  have fin: "finite {j. k \<le> j \<and> numbered Name j \<in> set taken}"
    by (rule finite_subset [OF _ finite_numbered_taken [of Name taken]]) auto
  have "k \<in> {j. k \<le> j \<and> numbered Name j \<in> set taken}"
    "k \<notin> {j. Suc k \<le> j \<and> numbered Name j \<in> set taken}"
    "{j. Suc k \<le> j \<and> numbered Name j \<in> set taken}
       \<subseteq> {j. k \<le> j \<and> numbered Name j \<in> set taken}"
    using k by auto
  then have "{j. Suc k \<le> j \<and> numbered Name j \<in> set taken}
          \<subset> {j. k \<le> j \<and> numbered Name j \<in> set taken}"
    by blast
  then have "card {j. Suc k \<le> j \<and> numbered Name j \<in> set taken}
          < card {j. k \<le> j \<and> numbered Name j \<in> set taken}"
    using fin by (rule psubset_card_mono [rotated])
  then show "((taken, Name, Suc k), (taken, Name, k))
      \<in> measure (\<lambda>(taken, Name, k). card {j. k \<le> j \<and> numbered Name j \<in> set taken})"
    by simp
qed

declare nextUnique.simps [simp del]

definition takenNames :: "StructInfo list \<Rightarrow> nat \<Rightarrow> string list" where
  "takenNames ss i =
     map (\<lambda>j. struct_name (ss ! j))
       (filter (\<lambda>j. j \<noteq> i \<and> struct_name (ss ! j) \<noteq> []) [0..<length ss])"

definition renameStruct :: "nat \<Rightarrow> string \<Rightarrow> StructInfo list \<Rightarrow> StructInfo list" where
  "renameStruct i Name ss = ss[i := (ss ! i)\<lparr>struct_name := Name\<rparr>]"

definition setName :: "nat \<Rightarrow> string \<Rightarrow> RemapState \<Rightarrow> RemapState" where
  "setName i Name st =
     (if Name = struct_name (structs st ! i) then st
      else if Name = [] then st\<lparr>structs := renameStruct i [] (structs st)\<rparr>
      else if Name \<notin> set (takenNames (structs st) i)
        then st\<lparr>structs := renameStruct i Name (structs st)\<rparr>
      else
        (let k = nextUnique (takenNames (structs st) i) Name (NamedStructTypesUniqueID st)
         in st\<lparr>structs := renameStruct i (numbered Name k) (structs st),
               NamedStructTypesUniqueID := Suc k\<rparr>))"

text \<open>
  \<^verbatim>\<open>StructType::create(Context)\<close> (line 72) makes a new identified struct with no name and
  no body; \<^verbatim>\<open>setBody\<close> (line 86) gives a struct its elements and packed flag. A type
  \<open>IdentifiedStruct i\<close> whose index the context does not hold is no C++ pointer; \<open>getStruct\<close>
  answers \<open>None\<close> for it and \<open>remapType\<close> passes it through.
\<close>

definition getStruct :: "RemapState \<Rightarrow> nat \<Rightarrow> StructInfo option" where
  "getStruct st i = (if i < length (structs st) then Some (structs st ! i) else None)"

definition createStruct :: "RemapState \<Rightarrow> nat \<times> RemapState" where
  "createStruct st =
     (length (structs st),
      st\<lparr>structs := structs st @ [\<lparr>struct_name = [], struct_body = None, struct_packed = False\<rparr>]\<rparr>)"

definition setBody :: "nat \<Rightarrow> Type list \<Rightarrow> bool \<Rightarrow> RemapState \<Rightarrow> RemapState" where
  "setBody i Els Packed st =
     st\<lparr>structs := (structs st)[i := (structs st ! i)\<lparr>struct_body := Some Els, struct_packed := Packed\<rparr>]\<rparr>"

section \<open>The type rewriter: AddrspaceRemoveTypeRemapper::remapType\<close>

text \<open>
  The state is threaded through the calls: the context (which the function extends and
  renames in) and the memo. \<open>setMapped\<close> is \<^verbatim>\<open>MappedTypes[SrcTy] = DstTy\<close>.
\<close>

definition setMapped :: "Type \<Rightarrow> Type \<Rightarrow> RemapState \<Rightarrow> RemapState" where
  "setMapped SrcTy DstTy st = st\<lparr>MappedTypes := (MappedTypes st)(SrcTy \<mapsto> DstTy)\<rparr>"

text \<open>The loops at lines 51-52, 65-66 and 84-85: remap the elements from left to right,
  each in the state the one before left.\<close>

fun remapEach ::
  "(Type \<Rightarrow> RemapState \<Rightarrow> (Type \<times> RemapState) option) \<Rightarrow> Type list \<Rightarrow> RemapState
     \<Rightarrow> (Type list \<times> RemapState) option" where
  "remapEach f [] st = Some ([], st)"
| "remapEach f (T # Ts) st =
     (case f T st of
        None \<Rightarrow> None
      | Some (T', st1) \<Rightarrow>
         (case remapEach f Ts st1 of
            None \<Rightarrow> None
          | Some (Ts', st2) \<Rightarrow> Some (T' # Ts', st2)))"

text \<open>
  Lines 72-80: the empty destination struct, the renaming of the source to
  \<^verbatim>\<open>Name + ".bad"\<close> and of the destination to \<^verbatim>\<open>Name\<close> when the source has a name, and
  the memo entry for the source, all before any element is looked at.
\<close>

definition placeholder :: "nat \<Rightarrow> StructInfo \<Rightarrow> RemapState \<Rightarrow> nat \<times> RemapState" where
  "placeholder i Ty st =
     (let (DstTy', st1) = createStruct st;
          st2 = (if struct_name Ty \<noteq> [] then
                   (let Name = struct_name Ty
                    in setName DstTy' Name (setName i (Name @ ''.bad'') st1))
                 else st1)
      in (DstTy', setMapped (IdentifiedStruct i) (IdentifiedStruct DstTy') st2))"

text \<open>
  \<^verbatim>\<open>remapType\<close> (lines 38-104). The C++ recursion has no bound of its own, so the model
  takes fuel: \<open>None\<close> means the fuel ran out, and the theorems below show that some amount
  of fuel always suffices on the types of a well-formed context. The cases follow the
  source: the memo first (lines 41-43); a pointer (46-48); a function type, parameters
  before the return type (49-55); a literal struct (57-67); an identified struct with a
  body (68-88), whose elements and packed flag are read from the source struct, which the
  recursion never changes; an opaque struct and every other kind unchanged; arrays and
  vectors (90-94); and the memo entry at the end (line 102).
\<close>

primrec remapType ::
  "nat \<Rightarrow> AddrspaceRemapFunction \<Rightarrow> Type \<Rightarrow> RemapState \<Rightarrow> (Type \<times> RemapState) option" where
  "remapType 0 ASRemapper SrcTy st = None"
| "remapType (Suc fuel) ASRemapper SrcTy st =
     (case MappedTypes st SrcTy of
        Some DstTy \<Rightarrow> Some (DstTy, st)
      | None \<Rightarrow>
         map_option (\<lambda>(DstTy, st'). (DstTy, setMapped SrcTy DstTy st'))
           (case SrcTy of
              PointerType AS \<Rightarrow> Some (PointerType (ASRemapper AS), st)
            | FunctionType Ret Params VarArg \<Rightarrow>
               (case remapEach (remapType fuel ASRemapper) Params st of
                  None \<Rightarrow> None
                | Some (Params', st1) \<Rightarrow>
                   (case remapType fuel ASRemapper Ret st1 of
                      None \<Rightarrow> None
                    | Some (Ret', st2) \<Rightarrow> Some (FunctionType Ret' Params' VarArg, st2)))
            | LiteralStruct Els Packed \<Rightarrow>
               (case remapEach (remapType fuel ASRemapper) Els st of
                  None \<Rightarrow> None
                | Some (NewElTys, st1) \<Rightarrow> Some (LiteralStruct NewElTys Packed, st1))
            | IdentifiedStruct i \<Rightarrow>
               (case getStruct st i of
                  None \<Rightarrow> Some (SrcTy, st)
                | Some Ty \<Rightarrow>
                   (case struct_body Ty of
                      None \<Rightarrow> Some (SrcTy, st)
                    | Some Els \<Rightarrow>
                       (let (DstTy', st1) = placeholder i Ty st
                        in case remapEach (remapType fuel ASRemapper) Els st1 of
                             None \<Rightarrow> None
                           | Some (NewElTys, st2) \<Rightarrow>
                               Some (IdentifiedStruct DstTy',
                                     setBody DstTy' NewElTys (struct_packed Ty) st2))))
            | ArrayType El n \<Rightarrow>
               (case remapType fuel ASRemapper El st of
                  None \<Rightarrow> None
                | Some (El', st1) \<Rightarrow> Some (ArrayType El' n, st1))
            | VectorType El n s \<Rightarrow>
               (case remapType fuel ASRemapper El st of
                  None \<Rightarrow> None
                | Some (El', st1) \<Rightarrow> Some (VectorType El' n s, st1))
            | OtherType k \<Rightarrow> Some (SrcTy, st)))"

text \<open>
  The two policies. \<^verbatim>\<open>AddressSpace::Generic\<close>, \<^verbatim>\<open>FirstSpecial\<close> and \<^verbatim>\<open>LastSpecial\<close>
  are enumerators of llvm-codegen-shared.h and are parameters here.
\<close>

definition removeAllAddrspaces :: "addrspace \<Rightarrow> AddrspaceRemapFunction" where
  "removeAllAddrspaces Generic AS = Generic"

definition removeJuliaAddrspaces :: "addrspace \<Rightarrow> addrspace \<Rightarrow> addrspace \<Rightarrow> AddrspaceRemapFunction" where
  "removeJuliaAddrspaces Generic FirstSpecial LastSpecial AS =
     (if FirstSpecial \<le> AS \<and> AS \<le> LastSpecial then Generic else AS)"

text \<open>The remapper as line 231 constructs it: an empty memo over the context as it is.\<close>

definition freshRemapper :: "StructInfo list \<Rightarrow> nat \<Rightarrow> RemapState" where
  "freshRemapper ss u = \<lparr>structs = ss, NamedStructTypesUniqueID = u, MappedTypes = Map.empty\<rparr>"

section \<open>The constant materializer: AddrspaceRemoveValueMaterializer::materialize\<close>

text \<open>
  The materializer holds a type mapper, which may be null (lines 112-121), and calls
  LLVM's \<^verbatim>\<open>MapValue\<close> through \<^verbatim>\<open>mapConstant\<close> (lines 175-178). Both are parameters
  here, over any state \<open>'s\<close> they thread (the value map, the memo of the type mapper);
  either may fail to come back, and \<^verbatim>\<open>MapValue\<close> may answer null.
\<close>

type_synonym 's TypeMapper = "Type \<Rightarrow> 's \<Rightarrow> error + Type \<times> 's"

type_synonym 's ConstantMapper = "Constant \<Rightarrow> 's \<Rightarrow> error + Constant option \<times> 's"

text \<open>Lines 162-168: the type mapper when there is one, the type itself otherwise.\<close>

definition materializerRemapType :: "'s TypeMapper option \<Rightarrow> Type \<Rightarrow> 's \<Rightarrow> error + Type \<times> 's" where
  "materializerRemapType TypeMapper SrcTy st =
     (case TypeMapper of Some remap \<Rightarrow> remap SrcTy st | None \<Rightarrow> Inr (SrcTy, st))"

text \<open>The loop at lines 141-146: each operand mapped, the operand itself where the
  mapping is null.\<close>

fun mapOperands :: "'s ConstantMapper \<Rightarrow> Constant list \<Rightarrow> 's \<Rightarrow> error + Constant list \<times> 's" where
  "mapOperands mapConstant [] st = Inr ([], st)"
| "mapOperands mapConstant (Op # Ops) st =
     (case mapConstant Op st of
        Inl e \<Rightarrow> Inl e
      | Inr (NewOp, st1) \<Rightarrow>
         (case mapOperands mapConstant Ops st1 of
            Inl e \<Rightarrow> Inl e
          | Inr (Ops', st2) \<Rightarrow> Inr ((case NewOp of Some C \<Rightarrow> C | None \<Rightarrow> Op) # Ops', st2)))"

text \<open>
  \<^verbatim>\<open>materialize\<close> (lines 125-159): null for everything that is no constant expression.
  For an address-space cast the operand is mapped and returned when its address space is
  that of the rewritten type of the cast; \<^verbatim>\<open>Src->getType()\<close> dereferences the mapped
  operand unchecked. Every other expression has its operands mapped and is rebuilt with
  the rewritten type, except a \<^verbatim>\<open>GetElementPtr\<close>, for which null is returned.
  \<^verbatim>\<open>getWithOperands\<close> is the expression under the same operator; the folding LLVM's
  constant factories may do is not modelled.
\<close>

definition materialize ::
  "'s TypeMapper option \<Rightarrow> 's ConstantMapper \<Rightarrow> Value \<Rightarrow> 's \<Rightarrow> error + Constant option \<times> 's" where
  "materialize TypeMapper mapConstant SrcV st =
     (case SrcV of
        Const (ConstantExpr Opc Ops CETy) \<Rightarrow>
          (case materializerRemapType TypeMapper CETy st of
             Inl e \<Rightarrow> Inl e
           | Inr (Ty, st1) \<Rightarrow>
              if Opc = AddrSpaceCast then
                (case Ops of
                   [] \<Rightarrow> Inl NoOperand
                 | Op0 # _ \<Rightarrow>
                    (case mapConstant Op0 st1 of
                       Inl e \<Rightarrow> Inl e
                     | Inr (None, st2) \<Rightarrow> Inl NullValue
                     | Inr (Some Src, st2) \<Rightarrow>
                        (case (getPointerAddressSpace (getType Src), getPointerAddressSpace Ty) of
                           (Some SrcAS, Some DstAS) \<Rightarrow>
                             if SrcAS = DstAS then Inr (Some Src, st2) else Inr (None, st2)
                         | _ \<Rightarrow> Inl NotAPointer)))
              else
                (case mapOperands mapConstant Ops st1 of
                   Inl e \<Rightarrow> Inl e
                 | Inr (Ops', st2) \<Rightarrow>
                     if Opc \<noteq> GetElementPtr then Inr (Some (ConstantExpr Opc Ops' Ty), st2)
                     else Inr (None, st2)))
      | _ \<Rightarrow> Inr (None, st))"

text \<open>The type rewriter as the type mapper the pass hands over (line 233), with the fuel
  of the model.\<close>

definition typeMapperOf :: "nat \<Rightarrow> AddrspaceRemapFunction \<Rightarrow> RemapState TypeMapper" where
  "typeMapperOf fuel ASRemapper SrcTy st =
     (case remapType fuel ASRemapper SrcTy st of None \<Rightarrow> Inl NoResult | Some r \<Rightarrow> Inr r)"

section \<open>The no-op cast eliminator: RemoveNoopAddrSpaceCasts\<close>

text \<open>The body of a function is the sequence \<^verbatim>\<open>instructions(F)\<close> walks (the basic
  blocks, flattened).\<close>

fun findInstruction :: "Instruction list \<Rightarrow> nat \<Rightarrow> Instruction option" where
  "findInstruction [] i = None"
| "findInstruction (I # body) i = (if inst_id I = i then Some I else findInstruction body i)"

fun typeOfValue :: "Instruction list \<Rightarrow> Value \<Rightarrow> Type option" where
  "typeOfValue body (Const c) = Some (getType c)"
| "typeOfValue body (Argument n T) = Some T"
| "typeOfValue body (InstructionValue i) = map_option inst_type (findInstruction body i)"

text \<open>\<^verbatim>\<open>V->replaceAllUsesWith(New)\<close> for an instruction \<open>V\<close>: every operand that is \<open>V\<close>
  becomes \<open>New\<close>.\<close>

definition replaceUse :: "nat \<Rightarrow> Value \<Rightarrow> Value \<Rightarrow> Value" where
  "replaceUse i New v = (if v = InstructionValue i then New else v)"

definition replaceUsesIn :: "nat \<Rightarrow> Value \<Rightarrow> Instruction \<Rightarrow> Instruction" where
  "replaceUsesIn i New I = I\<lparr>operands := map (replaceUse i New) (operands I)\<rparr>"

definition replaceAllUsesWith :: "nat \<Rightarrow> Value \<Rightarrow> Instruction list \<Rightarrow> Instruction list" where
  "replaceAllUsesWith i New body = map (replaceUsesIn i New) body"

text \<open>
  The first loop (lines 186-201) walks \<^verbatim>\<open>instructions(F)\<close> in place: \<open>earlier\<close> holds the
  instructions already visited, the second list those still to visit, and a replacement
  rewrites the operands of both. \<open>NoopCasts\<close> collects the identities of the casts found.
  Both branches of the test at line 192 make the same call.
\<close>

function scanNoopCasts ::
  "Instruction list \<Rightarrow> Instruction list \<Rightarrow> nat list \<Rightarrow> error + (Instruction list \<times> nat list)" where
  "scanNoopCasts earlier [] NoopCasts = Inr (earlier, NoopCasts)"
| "scanNoopCasts earlier (I # rest) NoopCasts =
     (if opcode I = AddrSpaceCast then
        (case operands I of
           [] \<Rightarrow> Inl NoOperand
         | Op0 # _ \<Rightarrow>
            (case typeOfValue (earlier @ I # rest) Op0 of
               None \<Rightarrow> Inl DanglingReference
             | Some SrcTy \<Rightarrow>
                (case (getPointerAddressSpace SrcTy, getPointerAddressSpace (inst_type I)) of
                   (Some SrcAS, Some DestAS) \<Rightarrow>
                     if SrcAS = DestAS then
                       (if Op0 = InstructionValue (inst_id I) then Inl ReplacedWithItself
                        else scanNoopCasts
                               (replaceAllUsesWith (inst_id I) Op0 (earlier @ [I]))
                               (replaceAllUsesWith (inst_id I) Op0 rest)
                               (NoopCasts @ [inst_id I]))
                     else scanNoopCasts (earlier @ [I]) rest NoopCasts
                 | _ \<Rightarrow> Inl NotAPointer)))
      else scanNoopCasts (earlier @ [I]) rest NoopCasts)"
  by pat_completeness auto
termination
  by (relation "measure (\<lambda>(earlier, rest, NoopCasts). length rest)")
     (auto simp: replaceAllUsesWith_def)

text \<open>The second loop (lines 202-203): \<^verbatim>\<open>I->eraseFromParent()\<close> for every collected cast.\<close>

fun eraseFromParent :: "nat \<Rightarrow> Instruction list \<Rightarrow> Instruction list" where
  "eraseFromParent i body = filter (\<lambda>I. inst_id I \<noteq> i) body"

fun eraseAll :: "nat list \<Rightarrow> Instruction list \<Rightarrow> Instruction list" where
  "eraseAll [] body = body"
| "eraseAll (i # NoopCasts) body = eraseAll NoopCasts (eraseFromParent i body)"

text \<open>\<^verbatim>\<open>Changed\<close> is initialised to false at line 183 and returned at line 205; no line
  in between assigns it.\<close>

definition RemoveNoopAddrSpaceCasts :: "Function \<Rightarrow> error + (bool \<times> Function)" where
  "RemoveNoopAddrSpaceCasts F =
     (let Changed = False in
      case scanNoopCasts [] (fn_body F) [] of
        Inl e \<Rightarrow> Inl e
      | Inr (body, NoopCasts) \<Rightarrow> Inr (Changed, F\<lparr>fn_body := eraseAll NoopCasts body\<rparr>))"

section \<open>The pass: removeAddrspaces\<close>

text \<open>
  What the pass reads and writes of a module: its global variables, aliases and functions,
  each list in module order, and the counter \<^verbatim>\<open>LastUnique\<close> of the module's symbol table.
  A global variable and an alias have a name (empty when \<^verbatim>\<open>hasName()\<close> is false), a value
  type and the address space of their pointer type \<^verbatim>\<open>getType()\<close>. Initialisers, aliasees,
  metadata, comdats and attributes are not carried: lines 318-336 and 386-398 write
  nothing else.
\<close>

record GlobalVariable =
  gv_name :: string
  gv_valueType :: Type
  gv_addrspace :: addrspace
  gv_isConstant :: bool
  gv_linkage :: nat
  gv_threadLocalMode :: nat

record GlobalAlias =
  ga_name :: string
  ga_valueType :: Type
  ga_addrspace :: addrspace
  ga_linkage :: nat

record Module =
  globals :: "GlobalVariable list"
  aliases :: "GlobalAlias list"
  functionList :: "Function list"
  LastUnique :: nat

text \<open>
  The symbol table of the module holds the named global values; two of them never share a
  name.
\<close>

definition valueNames :: "Module \<Rightarrow> string list" where
  "valueNames M = map gv_name (globals M) @ map ga_name (aliases M) @ map fn_name (functionList M)"

definition symbolTable :: "Module \<Rightarrow> string list" where
  "symbolTable M = filter (\<lambda>n. n \<noteq> []) (valueNames M)"

text \<open>
  \<^verbatim>\<open>Value::setName\<close> is LLVM's. Its contract for a global value, as used at lines 245,
  272 and 295 and by the constructors: setting the name the value has changes nothing; an
  empty name removes the name; a name no other value of the table has is taken as it is;
  a name that is taken gets a dot (on every target but NVPTX) and the decimal of the
  table's counter appended, the counter stepping first and then until the result is free.
  \<open>others\<close> are the names of the other values.
\<close>

definition claimName :: "string list \<Rightarrow> nat \<Rightarrow> string \<Rightarrow> string \<Rightarrow> string \<times> nat" where
  "claimName others Last Cur Name =
     (if Name = Cur then (Cur, Last)
      else if Name = [] then ([], Last)
      else if Name \<notin> set others then (Name, Last)
      else (let k = nextUnique others Name (Suc Last) in (numbered Name k, k)))"

definition setGlobalName :: "nat \<Rightarrow> string \<Rightarrow> Module \<Rightarrow> Module" where
  "setGlobalName k Name M =
     (let GV = globals M ! k;
          (n, u) = claimName (remove1 (gv_name GV) (symbolTable M)) (LastUnique M) (gv_name GV) Name
      in M\<lparr>globals := (globals M)[k := GV\<lparr>gv_name := n\<rparr>], LastUnique := u\<rparr>)"

definition setAliasName :: "nat \<Rightarrow> string \<Rightarrow> Module \<Rightarrow> Module" where
  "setAliasName k Name M =
     (let GA = aliases M ! k;
          (n, u) = claimName (remove1 (ga_name GA) (symbolTable M)) (LastUnique M) (ga_name GA) Name
      in M\<lparr>aliases := (aliases M)[k := GA\<lparr>ga_name := n\<rparr>], LastUnique := u\<rparr>)"

definition setFunctionName :: "nat \<Rightarrow> string \<Rightarrow> Module \<Rightarrow> Module" where
  "setFunctionName k Name M =
     (let F = functionList M ! k;
          (n, u) = claimName (remove1 (fn_name F) (symbolTable M)) (LastUnique M) (fn_name F) Name
      in M\<lparr>functionList := (functionList M)[k := F\<lparr>fn_name := n\<rparr>], LastUnique := u\<rparr>)"

text \<open>
  \<^verbatim>\<open>new GlobalVariable(M, ...)\<close> with no \<^verbatim>\<open>InsertBefore\<close>, \<^verbatim>\<open>GlobalAlias::create(..., &M)\<close>
  and \<^verbatim>\<open>Function::Create(..., &M)\<close> append the new value to its list, and the value
  enters the symbol table under its name, made unique as by \<^verbatim>\<open>setName\<close>.
\<close>

definition addGlobal :: "GlobalVariable \<Rightarrow> Module \<Rightarrow> Module" where
  "addGlobal NGV M =
     setGlobalName (length (globals M)) (gv_name NGV)
       (M\<lparr>globals := globals M @ [NGV\<lparr>gv_name := []\<rparr>]\<rparr>)"

definition addAlias :: "GlobalAlias \<Rightarrow> Module \<Rightarrow> Module" where
  "addAlias NGA M =
     setAliasName (length (aliases M)) (ga_name NGA)
       (M\<lparr>aliases := aliases M @ [NGA\<lparr>ga_name := []\<rparr>]\<rparr>)"

definition addFunction :: "Function \<Rightarrow> Module \<Rightarrow> Module" where
  "addFunction NF M =
     setFunctionName (length (functionList M)) (fn_name NF)
       (M\<lparr>functionList := functionList M @ [NF\<lparr>fn_name := []\<rparr>]\<rparr>)"

text \<open>
  The loops of the pass run over the values collected before the loop (lines 238-240,
  266-268, 289-291), here over their positions; the new values go to the end of the lists,
  so the positions of the collected ones do not move.
\<close>

fun forEach :: "nat list \<Rightarrow> (nat \<Rightarrow> 's \<Rightarrow> error + 's) \<Rightarrow> 's \<Rightarrow> error + 's" where
  "forEach [] f s = Inr s"
| "forEach (k # ks) f s = (case f k s of Inl e \<Rightarrow> Inl e | Inr s' \<Rightarrow> forEach ks f s')"

text \<open>
  Lines 242-261, one global: the original is renamed to \<^verbatim>\<open>Name + ".bad"\<close> when it has a
  name, and the new global is created under \<open>Name\<close> with the rewritten value type and the
  address space of the rewritten pointer type; \<^verbatim>\<open>cast<PointerType>\<close> stops on anything
  else. C++ leaves the order of the two calls of \<^verbatim>\<open>remapType\<close> open; the model rewrites
  the value type first. Lines 269-284 do the same for an alias.
\<close>

definition declareGlobal ::
  "nat \<Rightarrow> AddrspaceRemapFunction \<Rightarrow> nat \<Rightarrow> Module \<times> RemapState \<Rightarrow> error + Module \<times> RemapState" where
  "declareGlobal fuel ASRemapper k s =
     (case s of (M, TypeRemapper) \<Rightarrow>
       (let GV = globals M ! k;
            Name = gv_name GV;
            M1 = (if gv_name GV \<noteq> [] then setGlobalName k (Name @ ''.bad'') M else M)
        in case remapType fuel ASRemapper (gv_valueType GV) TypeRemapper of
             None \<Rightarrow> Inl NoResult
           | Some (ValueTy, R1) \<Rightarrow>
              (case remapType fuel ASRemapper (PointerType (gv_addrspace GV)) R1 of
                 None \<Rightarrow> Inl NoResult
               | Some (PtrTy, R2) \<Rightarrow>
                  (case PtrTy of
                     PointerType AS \<Rightarrow>
                       Inr (addGlobal
                              \<lparr>gv_name = Name, gv_valueType = ValueTy, gv_addrspace = AS,
                               gv_isConstant = gv_isConstant GV, gv_linkage = gv_linkage GV,
                               gv_threadLocalMode = gv_threadLocalMode GV\<rparr> M1, R2)
                   | _ \<Rightarrow> Inl NotAPointer))))"

definition declareAlias ::
  "nat \<Rightarrow> AddrspaceRemapFunction \<Rightarrow> nat \<Rightarrow> Module \<times> RemapState \<Rightarrow> error + Module \<times> RemapState" where
  "declareAlias fuel ASRemapper k s =
     (case s of (M, TypeRemapper) \<Rightarrow>
       (let GA = aliases M ! k;
            Name = ga_name GA;
            M1 = (if ga_name GA \<noteq> [] then setAliasName k (Name @ ''.bad'') M else M)
        in case remapType fuel ASRemapper (ga_valueType GA) TypeRemapper of
             None \<Rightarrow> Inl NoResult
           | Some (ValueTy, R1) \<Rightarrow>
              (case remapType fuel ASRemapper (PointerType (ga_addrspace GA)) R1 of
                 None \<Rightarrow> Inl NoResult
               | Some (PtrTy, R2) \<Rightarrow>
                  (case PtrTy of
                     PointerType AS \<Rightarrow>
                       Inr (addAlias
                              \<lparr>ga_name = Name, ga_valueType = ValueTy, ga_addrspace = AS,
                               ga_linkage = ga_linkage GA\<rparr> M1, R2)
                   | _ \<Rightarrow> Inl NotAPointer))))"

text \<open>
  Lines 292-312, one function: renamed as above; the parameter types are rewritten, then
  the return type, and the new function is created under \<open>Name\<close> with that type, the
  linkage of the original and \<^verbatim>\<open>F->getAddressSpace()\<close>, the address space of the
  original, which is not sent through the remapper.
\<close>

definition declareFunction ::
  "nat \<Rightarrow> AddrspaceRemapFunction \<Rightarrow> nat \<Rightarrow> Module \<times> RemapState \<Rightarrow> error + Module \<times> RemapState" where
  "declareFunction fuel ASRemapper k s =
     (case s of (M, TypeRemapper) \<Rightarrow>
       (let F = functionList M ! k;
            Name = fn_name F;
            M1 = (if fn_name F \<noteq> [] then setFunctionName k (Name @ ''.bad'') M else M)
        in case fn_type F of
             FunctionType Ret Params VarArg \<Rightarrow>
               (case remapEach (remapType fuel ASRemapper) Params TypeRemapper of
                  None \<Rightarrow> Inl NoResult
                | Some (Tys, R1) \<Rightarrow>
                   (case remapType fuel ASRemapper Ret R1 of
                      None \<Rightarrow> Inl NoResult
                    | Some (Ret', R2) \<Rightarrow>
                        Inr (addFunction
                               \<lparr>fn_name = Name, fn_type = FunctionType Ret' Tys VarArg,
                                fn_linkage = fn_linkage F, fn_addrspace = fn_addrspace F,
                                fn_body = []\<rparr> M1, R2)))
           | _ \<Rightarrow> Inl NotAFunctionType))"

text \<open>
  Lines 340-382, one function: \<^verbatim>\<open>CloneFunctionInto\<close> and the rewriting of the typed
  attributes are LLVM's work on the body and the remapper; they are the parameter
  \<open>cloneBody\<close>, which gives the cloned body and the remapper it leaves. Then the no-op
  casts of the new function are removed, the result of \<^verbatim>\<open>RemoveNoopAddrSpaceCasts\<close>
  being dropped (line 381), and the body of the original is deleted. \<^verbatim>\<open>VMap[F]\<close> is the
  function created for \<open>F\<close>, at \<open>nF + k\<close> when \<open>F\<close> is at \<open>k\<close>.
\<close>

type_synonym BodyCloner = "Function \<Rightarrow> RemapState \<Rightarrow> error + Instruction list \<times> RemapState"

definition defineFunction ::
  "BodyCloner \<Rightarrow> nat \<Rightarrow> nat \<Rightarrow> Module \<times> RemapState \<Rightarrow> error + Module \<times> RemapState" where
  "defineFunction cloneBody nF k s =
     (case s of (M, TypeRemapper) \<Rightarrow>
       (let F = functionList M ! k;
            NF = functionList M ! (nF + k)
        in case cloneBody F TypeRemapper of
             Inl e \<Rightarrow> Inl e
           | Inr (body, R1) \<Rightarrow>
              (case RemoveNoopAddrSpaceCasts (NF\<lparr>fn_body := body\<rparr>) of
                 Inl e \<Rightarrow> Inl e
               | Inr (Changed, NF') \<Rightarrow>
                   Inr (M\<lparr>functionList := (functionList M)[nF + k := NF', k := F\<lparr>fn_body := []\<rparr>]\<rparr>, R1))))"

text \<open>Lines 401-406: the originals, which are the first of each list, are erased.\<close>

definition eraseOriginals :: "nat \<Rightarrow> nat \<Rightarrow> nat \<Rightarrow> Module \<Rightarrow> Module" where
  "eraseOriginals nG nA nF M =
     M\<lparr>globals := drop nG (globals M), aliases := drop nA (aliases M),
       functionList := drop nF (functionList M)\<rparr>"

text \<open>
  Lines 409-415: \<^verbatim>\<open>Intrinsic::remangleIntrinsicFunction\<close> is LLVM's; it answers nothing, or
  the declaration that is to stand for the function, which it may have to add at the end
  of the module. The parameter gives the module as the call leaves it, the function still
  at its place. The iterator steps before the call (line 410): after the last function
  of the list it is the end of the list and stays so, whatever the call appends; after
  any other function it is at the successor, which moves into the place of the function
  when that is erased, and declarations the calls append are walked over in turn. So the
  loop takes fuel.
\<close>

type_synonym Remangler = "nat \<Rightarrow> Module \<Rightarrow> Module option"

definition eraseFunctionAt :: "nat \<Rightarrow> Module \<Rightarrow> Module" where
  "eraseFunctionAt i M = M\<lparr>functionList := take i (functionList M) @ drop (Suc i) (functionList M)\<rparr>"

fun remangleFrom :: "nat \<Rightarrow> Remangler \<Rightarrow> nat \<Rightarrow> Module \<Rightarrow> error + Module" where
  "remangleFrom 0 remangleIntrinsicFunction i M =
     (if i < length (functionList M) then Inl NoResult else Inr M)"
| "remangleFrom (Suc fuel) remangleIntrinsicFunction i M =
     (if i < length (functionList M) then
        (case remangleIntrinsicFunction i M of
           None \<Rightarrow> remangleFrom fuel remangleIntrinsicFunction (Suc i) M
         | Some M2 \<Rightarrow>
             if Suc i = length (functionList M) then Inr (eraseFunctionAt i M2)
             else remangleFrom fuel remangleIntrinsicFunction i (eraseFunctionAt i M2))
      else Inr M)"

text \<open>
  The pass (lines 228-418): declare the globals, the aliases and the functions, define the
  functions, erase the originals, remangle, and return true. \<open>rebuild\<close> is the pass up to
  the erasure. Running out of fuel is \<open>NoResult\<close>.
\<close>

definition rebuild ::
  "nat \<Rightarrow> AddrspaceRemapFunction \<Rightarrow> BodyCloner \<Rightarrow> Module \<Rightarrow> RemapState
     \<Rightarrow> error + Module \<times> RemapState" where
  "rebuild fuel ASRemapper cloneBody M TypeRemapper =
     (let nG = length (globals M); nA = length (aliases M); nF = length (functionList M)
      in case forEach [0..<nG] (declareGlobal fuel ASRemapper) (M, TypeRemapper) of
           Inl e \<Rightarrow> Inl e
         | Inr s1 \<Rightarrow>
            (case forEach [0..<nA] (declareAlias fuel ASRemapper) s1 of
               Inl e \<Rightarrow> Inl e
             | Inr s2 \<Rightarrow>
                (case forEach [0..<nF] (declareFunction fuel ASRemapper) s2 of
                   Inl e \<Rightarrow> Inl e
                 | Inr s3 \<Rightarrow>
                    (case forEach [0..<nF] (defineFunction cloneBody nF) s3 of
                       Inl e \<Rightarrow> Inl e
                     | Inr (M4, R4) \<Rightarrow> Inr (eraseOriginals nG nA nF M4, R4)))))"

definition removeAddrspaces ::
  "nat \<Rightarrow> AddrspaceRemapFunction \<Rightarrow> BodyCloner \<Rightarrow> Remangler \<Rightarrow> Module \<Rightarrow> StructInfo list \<Rightarrow> nat
     \<Rightarrow> error + bool \<times> Module \<times> RemapState" where
  "removeAddrspaces fuel ASRemapper cloneBody remangleIntrinsicFunction M Context uniqueID =
     (case rebuild fuel ASRemapper cloneBody M (freshRemapper Context uniqueID) of
        Inl e \<Rightarrow> Inl e
      | Inr (M5, R) \<Rightarrow>
         (case remangleFrom fuel remangleIntrinsicFunction 0 M5 of
            Inl e \<Rightarrow> Inl e
          | Inr M6 \<Rightarrow> Inr (True, M6, R)))"

section \<open>Vocabulary of the properties\<close>

subsection \<open>Types of a context\<close>

text \<open>
  The identified structs a type mentions; a type is closed under \<open>N\<close> when they are all
  below \<open>N\<close>. A context is well formed when every body mentions structs of the context
  only and no two structs share a name.
\<close>

primrec structIds :: "Type \<Rightarrow> nat set" where
  "structIds (OtherType k) = {}"
| "structIds (PointerType a) = {}"
| "structIds (FunctionType Ret Params VarArg) = \<Union>(set (map structIds Params)) \<union> structIds Ret"
| "structIds (LiteralStruct Els Packed) = \<Union>(set (map structIds Els))"
| "structIds (IdentifiedStruct i) = {i}"
| "structIds (ArrayType El n) = structIds El"
| "structIds (VectorType El n s) = structIds El"

definition closedType :: "nat \<Rightarrow> Type \<Rightarrow> bool" where
  "closedType N T = (\<forall>i \<in> structIds T. i < N)"

definition bodyTypes :: "StructInfo \<Rightarrow> Type list" where
  "bodyTypes S = (case struct_body S of None \<Rightarrow> [] | Some Els \<Rightarrow> Els)"

definition closedStructs :: "StructInfo list \<Rightarrow> bool" where
  "closedStructs ss = (\<forall>S \<in> set ss. \<forall>T \<in> set (bodyTypes S). closedType (length ss) T)"

definition distinctNames :: "StructInfo list \<Rightarrow> bool" where
  "distinctNames ss = distinct (filter (\<lambda>n. n \<noteq> []) (map struct_name ss))"

definition wellFormedContext :: "StructInfo list \<Rightarrow> bool" where
  "wellFormedContext ss = (closedStructs ss \<and> distinctNames ss)"

text \<open>
  What the rewrite of a type should be, given where the identified structs go: the same
  type with every address space sent through the policy and every identified struct
  replaced by its destination.
\<close>

primrec substType :: "(nat \<Rightarrow> Type) \<Rightarrow> AddrspaceRemapFunction \<Rightarrow> Type \<Rightarrow> Type" where
  "substType \<sigma> pol (OtherType k) = OtherType k"
| "substType \<sigma> pol (PointerType a) = PointerType (pol a)"
| "substType \<sigma> pol (FunctionType Ret Params VarArg) =
     FunctionType (substType \<sigma> pol Ret) (map (substType \<sigma> pol) Params) VarArg"
| "substType \<sigma> pol (LiteralStruct Els Packed) = LiteralStruct (map (substType \<sigma> pol) Els) Packed"
| "substType \<sigma> pol (IdentifiedStruct i) = \<sigma> i"
| "substType \<sigma> pol (ArrayType El n) = ArrayType (substType \<sigma> pol El) n"
| "substType \<sigma> pol (VectorType El n s) = VectorType (substType \<sigma> pol El) n s"

definition structMap :: "RemapState \<Rightarrow> nat \<Rightarrow> Type" where
  "structMap st i =
     (case MappedTypes st (IdentifiedStruct i) of Some D \<Rightarrow> D | None \<Rightarrow> IdentifiedStruct i)"

text \<open>
  The states a remapper goes through in one run of the pass: it starts with an empty memo
  over the context \<open>ss0\<close>, and rewrites types of that context.
\<close>

inductive reachable :: "StructInfo list \<Rightarrow> AddrspaceRemapFunction \<Rightarrow> RemapState \<Rightarrow> bool"
  for ss0 :: "StructInfo list" and pol :: AddrspaceRemapFunction where
  fresh: "reachable ss0 pol \<lparr>structs = ss0, NamedStructTypesUniqueID = u, MappedTypes = Map.empty\<rparr>"
| rewritten: "reachable ss0 pol st \<Longrightarrow> closedType (length ss0) T \<Longrightarrow>
     remapType n pol T st = Some (T', st') \<Longrightarrow> reachable ss0 pol st'"

text \<open>
  Structural equality looks through the identities of structs: the shape of a type is the
  type with every identified struct unfolded into its name, body and packed flag, \<open>k\<close>
  levels deep (\<open>SCut\<close> below that), and two types are structurally equal when their
  shapes agree at every depth. A type is pointer free when no depth shows a pointer.
\<close>

datatype Shape =
    SOther nat
  | SPointer addrspace
  | SFunction Shape "Shape list" bool
  | SLiteral "Shape list" bool
  | SIdentified string "Shape list option" bool
  | SArray Shape nat
  | SVector Shape nat bool
  | SCut

primrec shapeWith :: "(nat \<Rightarrow> Shape) \<Rightarrow> Type \<Rightarrow> Shape" where
  "shapeWith f (OtherType k) = SOther k"
| "shapeWith f (PointerType a) = SPointer a"
| "shapeWith f (FunctionType Ret Params VarArg) =
     SFunction (shapeWith f Ret) (map (shapeWith f) Params) VarArg"
| "shapeWith f (LiteralStruct Els Packed) = SLiteral (map (shapeWith f) Els) Packed"
| "shapeWith f (IdentifiedStruct i) = f i"
| "shapeWith f (ArrayType El n) = SArray (shapeWith f El) n"
| "shapeWith f (VectorType El n s) = SVector (shapeWith f El) n s"

primrec unfoldStruct :: "nat \<Rightarrow> StructInfo list \<Rightarrow> nat \<Rightarrow> Shape" where
  "unfoldStruct 0 ss i = SCut"
| "unfoldStruct (Suc k) ss i =
     (if i < length ss then
        SIdentified (struct_name (ss ! i))
          (map_option (map (shapeWith (unfoldStruct k ss))) (struct_body (ss ! i)))
          (struct_packed (ss ! i))
      else SCut)"

definition shape :: "nat \<Rightarrow> StructInfo list \<Rightarrow> Type \<Rightarrow> Shape" where
  "shape k ss T = shapeWith (unfoldStruct k ss) T"

primrec mapSpaces :: "AddrspaceRemapFunction \<Rightarrow> Shape \<Rightarrow> Shape" where
  "mapSpaces pol (SOther k) = SOther k"
| "mapSpaces pol (SPointer a) = SPointer (pol a)"
| "mapSpaces pol (SFunction r ps v) = SFunction (mapSpaces pol r) (map (mapSpaces pol) ps) v"
| "mapSpaces pol (SLiteral es p) = SLiteral (map (mapSpaces pol) es) p"
| "mapSpaces pol (SIdentified nm b p) = SIdentified nm (map_option (map (mapSpaces pol)) b) p"
| "mapSpaces pol (SArray e n) = SArray (mapSpaces pol e) n"
| "mapSpaces pol (SVector e n s) = SVector (mapSpaces pol e) n s"
| "mapSpaces pol SCut = SCut"

primrec spacesOf :: "Shape \<Rightarrow> addrspace set" where
  "spacesOf (SOther k) = {}"
| "spacesOf (SPointer a) = {a}"
| "spacesOf (SFunction r ps v) = spacesOf r \<union> \<Union>(set (map spacesOf ps))"
| "spacesOf (SLiteral es p) = \<Union>(set (map spacesOf es))"
| "spacesOf (SIdentified nm b p) =
     (case map_option (map spacesOf) b of None \<Rightarrow> {} | Some xs \<Rightarrow> \<Union>(set xs))"
| "spacesOf (SArray e n) = spacesOf e"
| "spacesOf (SVector e n s) = spacesOf e"
| "spacesOf SCut = {}"

definition structurallyEqual :: "StructInfo list \<Rightarrow> Type \<Rightarrow> StructInfo list \<Rightarrow> Type \<Rightarrow> bool" where
  "structurallyEqual ss T ss' T' = (\<forall>k. shape k ss T = shape k ss' T')"

definition pointerFree :: "StructInfo list \<Rightarrow> Type \<Rightarrow> bool" where
  "pointerFree ss T = (\<forall>k. spacesOf (shape k ss T) = {})"

subsection \<open>The invariant of the memo\<close>

text \<open>
  \<open>Inv ss0 pol Open st\<close> relates a state to the context \<open>ss0\<close> the remapper started on.
  The structs of \<open>ss0\<close> keep body and packed flag, and their name until they are rewritten;
  every memo entry is the substitution of its key; a rewritten struct with a body has a
  destination beyond \<open>ss0\<close> that carries its name and, unless the struct is in \<open>Open\<close> (its
  elements are being rewritten), its rewritten body; destinations are distinct, every
  struct beyond \<open>ss0\<close> is one, and names stay distinct.
\<close>

definition mappedIds :: "RemapState \<Rightarrow> nat set" where
  "mappedIds st = {i. MappedTypes st (IdentifiedStruct i) \<noteq> None}"

definition inv_frame :: "StructInfo list \<Rightarrow> RemapState \<Rightarrow> bool" where
  "inv_frame ss0 st \<longleftrightarrow>
     length ss0 \<le> length (structs st) \<and>
     (\<forall>i<length ss0.
        struct_body (structs st ! i) = struct_body (ss0 ! i) \<and>
        struct_packed (structs st ! i) = struct_packed (ss0 ! i) \<and>
        (i \<notin> mappedIds st \<or> struct_body (ss0 ! i) = None \<longrightarrow>
           struct_name (structs st ! i) = struct_name (ss0 ! i)))"

definition inv_memo :: "StructInfo list \<Rightarrow> AddrspaceRemapFunction \<Rightarrow> RemapState \<Rightarrow> bool" where
  "inv_memo ss0 pol st \<longleftrightarrow>
     (\<forall>T T'. MappedTypes st T = Some T' \<longrightarrow>
        closedType (length ss0) T \<and> structIds T \<subseteq> mappedIds st \<and>
        T' = substType (structMap st) pol T)"

definition destOk ::
  "StructInfo list \<Rightarrow> AddrspaceRemapFunction \<Rightarrow> nat set \<Rightarrow> RemapState \<Rightarrow> nat \<Rightarrow> bool" where
  "destOk ss0 pol Open st i =
     (case struct_body (ss0 ! i) of
        None \<Rightarrow> structMap st i = IdentifiedStruct i
      | Some Els \<Rightarrow>
         (\<exists>d. structMap st i = IdentifiedStruct d \<and> length ss0 \<le> d \<and>
              d < length (structs st) \<and>
              struct_name (structs st ! d) = struct_name (ss0 ! i) \<and>
              (if i \<in> Open then struct_body (structs st ! d) = None
               else struct_body (structs st ! d) = Some (map (substType (structMap st) pol) Els) \<and>
                    struct_packed (structs st ! d) = struct_packed (ss0 ! i) \<and>
                    (\<forall>T \<in> set Els. structIds T \<subseteq> mappedIds st))))"

definition inv_dest ::
  "StructInfo list \<Rightarrow> AddrspaceRemapFunction \<Rightarrow> nat set \<Rightarrow> RemapState \<Rightarrow> bool" where
  "inv_dest ss0 pol Open st \<longleftrightarrow> (\<forall>i \<in> mappedIds st. destOk ss0 pol Open st i)"

definition inv_onto :: "StructInfo list \<Rightarrow> RemapState \<Rightarrow> bool" where
  "inv_onto ss0 st \<longleftrightarrow>
     (\<forall>d. length ss0 \<le> d \<and> d < length (structs st) \<longrightarrow>
        (\<exists>i \<in> mappedIds st. structMap st i = IdentifiedStruct d))"

definition Inv ::
  "StructInfo list \<Rightarrow> AddrspaceRemapFunction \<Rightarrow> nat set \<Rightarrow> RemapState \<Rightarrow> bool" where
  "Inv ss0 pol Open st \<longleftrightarrow>
     closedStructs ss0 \<and> inv_frame ss0 st \<and> inv_memo ss0 pol st \<and> inv_dest ss0 pol Open st \<and>
     inj_on (structMap st) (mappedIds st) \<and> inv_onto ss0 st \<and> distinctNames (structs st) \<and>
     Open \<subseteq> mappedIds st"

definition emptyStruct :: "string \<Rightarrow> StructInfo" where
  "emptyStruct Name = \<lparr>struct_name = Name, struct_body = None, struct_packed = False\<rparr>"

definition unmapped :: "StructInfo list \<Rightarrow> RemapState \<Rightarrow> nat set" where
  "unmapped ss0 st = {i. i < length ss0 \<and> i \<notin> mappedIds st}"

definition pointersMapped :: "AddrspaceRemapFunction \<Rightarrow> RemapState \<Rightarrow> bool" where
  "pointersMapped pol st =
     (\<forall>a D. MappedTypes st (PointerType a) = Some D \<longrightarrow> D = PointerType (pol a))"

subsection \<open>Instructions of a function\<close>

text \<open>
  A no-op cast is an address-space cast whose operand's type and own type have the same
  address space. \<open>rewire \<rho> R\<close> sends a use of a cast in \<open>R\<close> to \<open>\<rho>\<close> of that cast and
  leaves every other operand alone.
\<close>

definition isNoopCast :: "Instruction list \<Rightarrow> Instruction \<Rightarrow> bool" where
  "isNoopCast body I =
     (opcode I = AddrSpaceCast \<and>
      (case operands I of
         [] \<Rightarrow> False
       | Op0 # _ \<Rightarrow>
          (case typeOfValue body Op0 of
             None \<Rightarrow> False
           | Some SrcTy \<Rightarrow>
               getPointerAddressSpace SrcTy \<noteq> None \<and>
               getPointerAddressSpace SrcTy = getPointerAddressSpace (inst_type I))))"

definition noopCastIds :: "Instruction list \<Rightarrow> Instruction list \<Rightarrow> nat set" where
  "noopCastIds body Is = set (map inst_id (filter (isNoopCast body) Is))"

definition removedCasts :: "Function \<Rightarrow> nat set" where
  "removedCasts F = noopCastIds (fn_body F) (fn_body F)"

definition rewire :: "(nat \<Rightarrow> Value) \<Rightarrow> nat set \<Rightarrow> Value \<Rightarrow> Value" where
  "rewire \<rho> R v = (case v of InstructionValue c \<Rightarrow> if c \<in> R then \<rho> c else v | _ \<Rightarrow> v)"

definition rewireInstruction :: "(nat \<Rightarrow> Value) \<Rightarrow> nat set \<Rightarrow> Instruction \<Rightarrow> Instruction" where
  "rewireInstruction \<rho> R J = J\<lparr>operands := map (rewire \<rho> R) (operands J)\<rparr>"

definition usesOf :: "Instruction list \<Rightarrow> Value set" where
  "usesOf body = (\<Union>J \<in> set body. set (operands J))"

text \<open>
  What the eliminator needs of a body to come back. Every address-space cast has an
  operand, the operand is a constant, an argument or an instruction of the body, its type
  and the type of the cast are pointers or vectors of pointers, and no cast reaches
  itself through the operands of casts: an operand that is an instruction ranks below
  the cast. In a body LLVM's verifier accepts, the operand of a reachable cast is defined
  where it dominates the cast, so any order along the dominator tree is such a rank.
\<close>

definition castsWellFormed :: "(nat \<Rightarrow> nat) \<Rightarrow> Instruction list \<Rightarrow> bool" where
  "castsWellFormed rank body \<longleftrightarrow>
     (\<forall>I \<in> set body. opcode I = AddrSpaceCast \<longrightarrow>
        getPointerAddressSpace (inst_type I) \<noteq> None \<and>
        (case operands I of
           [] \<Rightarrow> False
         | Op0 # _ \<Rightarrow>
            (case typeOfValue body Op0 of
               None \<Rightarrow> False
             | Some SrcTy \<Rightarrow> getPointerAddressSpace SrcTy \<noteq> None) \<and>
            (case Op0 of
               InstructionValue j \<Rightarrow> rank j < rank (inst_id I)
             | _ \<Rightarrow> True)))"

subsection \<open>Constants\<close>

text \<open>\<^verbatim>\<open>dyn_cast<ConstantExpr>\<close> succeeds.\<close>

definition isConstantExpr :: "Value \<Rightarrow> bool" where
  "isConstantExpr V = (case V of Const (ConstantExpr Opc Ops T) \<Rightarrow> True | _ \<Rightarrow> False)"

subsection \<open>Modules\<close>



definition moduleOf :: "error + bool \<times> Module \<times> RemapState \<Rightarrow> Module option" where
  "moduleOf r = (case r of Inl e \<Rightarrow> None | Inr (Changed, M, TypeRemapper) \<Rightarrow> Some M)"










subsection \<open>Example inputs\<close>

text \<open>
  A function whose body is one cast of its argument from address space 5 to address
  space 5, and a use of the cast.
\<close>

definition noop_cast_function :: Function where
  "noop_cast_function =
     \<lparr>fn_name = ''f'', fn_type = FunctionType (PointerType 5) [PointerType 5] False,
      fn_linkage = 0, fn_addrspace = 0,
      fn_body =
        [\<lparr>inst_id = 0, opcode = AddrSpaceCast, operands = [Argument 0 (PointerType 5)],
          inst_type = PointerType 5\<rparr>,
         \<lparr>inst_id = 1, opcode = OtherOpcode 1, operands = [InstructionValue 0],
          inst_type = OtherType 0\<rparr>]\<rparr>"

text \<open>Two no-op casts in a chain, a cast to another address space, and a user of both.\<close>

definition cast_chain_function :: Function where
  "cast_chain_function =
     \<lparr>fn_name = ''g'', fn_type = FunctionType (OtherType 0) [PointerType 5] False,
      fn_linkage = 0, fn_addrspace = 0,
      fn_body =
        [\<lparr>inst_id = 0, opcode = AddrSpaceCast, operands = [Argument 0 (PointerType 5)],
          inst_type = PointerType 5\<rparr>,
         \<lparr>inst_id = 1, opcode = AddrSpaceCast, operands = [InstructionValue 0],
          inst_type = PointerType 5\<rparr>,
         \<lparr>inst_id = 2, opcode = AddrSpaceCast, operands = [InstructionValue 1],
          inst_type = PointerType 7\<rparr>,
         \<lparr>inst_id = 3, opcode = OtherOpcode 1, operands = [InstructionValue 1, InstructionValue 2],
          inst_type = OtherType 0\<rparr>]\<rparr>"

definition cast_chain_cleaned :: Function where
  "cast_chain_cleaned =
     cast_chain_function\<lparr>fn_body :=
        [\<lparr>inst_id = 2, opcode = AddrSpaceCast, operands = [Argument 0 (PointerType 5)],
          inst_type = PointerType 7\<rparr>,
         \<lparr>inst_id = 3, opcode = OtherOpcode 1,
          operands = [Argument 0 (PointerType 5), InstructionValue 2],
          inst_type = OtherType 0\<rparr>]\<rparr>"

text \<open>A struct with a pointer (to itself, as the opaque pointer allows) in address space 10,
  and a packed struct with no pointer, used by a function type.\<close>

definition list_context :: "StructInfo list" where
  "list_context =
     [\<lparr>struct_name = ''list'', struct_body = Some [OtherType 64, PointerType 10],
       struct_packed = False\<rparr>]"

definition pair_context :: "StructInfo list" where
  "pair_context =
     [\<lparr>struct_name = ''pair'', struct_body = Some [OtherType 32, ArrayType (OtherType 8) 4],
       struct_packed = True\<rparr>]"

definition pair_user :: Type where
  "pair_user = FunctionType (OtherType 0) [IdentifiedStruct 0, VectorType (OtherType 32) 4 False] False"

text \<open>
  A stand-in for \<^verbatim>\<open>MapValue\<close> on the examples: a global is mapped to its replacement,
  a pointer in address space 0, and every other constant to itself. The constant
  expressions are a cast of a global from address space 10 to 11 and an element pointer
  into it.
\<close>

definition replacementOf :: "RemapState ConstantMapper" where
  "replacementOf C st =
     (case C of
        GlobalValue g T \<Rightarrow> Inr (Some (GlobalValue (g + 100) (PointerType 0)), st)
      | _ \<Rightarrow> Inr (Some C, st))"

definition global_cast :: Constant where
  "global_cast = ConstantExpr AddrSpaceCast [GlobalValue 1 (PointerType 10)] (PointerType 11)"

definition global_gep :: Constant where
  "global_gep =
     ConstantExpr GetElementPtr [GlobalValue 1 (PointerType 10), ConstantData 4 (OtherType 64)]
       (PointerType 10)"

text \<open>
  A body cloner that copies the body as it is, and a remangler with no answer. A module
  with a global and an alias in address space 10 and a function in address space 5 that
  takes a pointer in address space 5, and what the pass makes of it under the policy
  that sends every address space to 0.
\<close>

definition plainClone :: BodyCloner where
  "plainClone F R = Inr (fn_body F, R)"

definition noRemangling :: Remangler where
  "noRemangling i M = None"

definition small_module :: Module where
  "small_module =
     \<lparr>globals = [\<lparr>gv_name = ''g'', gv_valueType = OtherType 32, gv_addrspace = 10,
                  gv_isConstant = False, gv_linkage = 0, gv_threadLocalMode = 0\<rparr>],
      aliases = [\<lparr>ga_name = ''a'', ga_valueType = OtherType 32, ga_addrspace = 10, ga_linkage = 0\<rparr>],
      functionList = [\<lparr>fn_name = ''f'', fn_type = FunctionType (OtherType 0) [PointerType 5] False,
                    fn_linkage = 0, fn_addrspace = 5, fn_body = []\<rparr>],
      LastUnique = 0\<rparr>"

definition small_module_rewritten :: Module where
  "small_module_rewritten =
     \<lparr>globals = [\<lparr>gv_name = ''g'', gv_valueType = OtherType 32, gv_addrspace = 0,
                  gv_isConstant = False, gv_linkage = 0, gv_threadLocalMode = 0\<rparr>],
      aliases = [\<lparr>ga_name = ''a'', ga_valueType = OtherType 32, ga_addrspace = 0,
                  ga_linkage = 0\<rparr>],
      functionList = [\<lparr>fn_name = ''f'',
                       fn_type = FunctionType (OtherType 0) [PointerType 0] False,
                       fn_linkage = 0, fn_addrspace = 5, fn_body = []\<rparr>],
      LastUnique = 0\<rparr>"







text \<open>Two functions, the second under the name the first is moved to.\<close>

definition colliding_module :: Module where
  "colliding_module =
     \<lparr>globals = [], aliases = [],
      functionList =
        [\<lparr>fn_name = ''f'', fn_type = FunctionType (OtherType 0) [] False,
          fn_linkage = 0, fn_addrspace = 0, fn_body = []\<rparr>,
         \<lparr>fn_name = ''f.bad'', fn_type = FunctionType (OtherType 0) [] False,
          fn_linkage = 0, fn_addrspace = 0, fn_body = []\<rparr>],
      LastUnique = 0\<rparr>"

section \<open>Names in the context\<close>

lemma nextUnique_fresh: "numbered Name (nextUnique taken Name k) \<notin> set taken"
  by (induction taken Name k rule: nextUnique.induct) (subst nextUnique.simps, simp)

lemma distinctNames_iff:
  "distinctNames ss \<longleftrightarrow>
     (\<forall>i<length ss. \<forall>j<length ss. i \<noteq> j \<and> struct_name (ss ! i) \<noteq> [] \<longrightarrow>
        struct_name (ss ! i) \<noteq> struct_name (ss ! j))"
proof -
  have "\<And>xs :: string list. distinct (filter (\<lambda>n. n \<noteq> []) xs) \<longleftrightarrow>
      (\<forall>i<length xs. \<forall>j<length xs. i \<noteq> j \<and> xs ! i \<noteq> [] \<longrightarrow> xs ! i \<noteq> xs ! j)"
  proof -
    fix xs :: "string list"
    show "distinct (filter (\<lambda>n. n \<noteq> []) xs) \<longleftrightarrow>
      (\<forall>i<length xs. \<forall>j<length xs. i \<noteq> j \<and> xs ! i \<noteq> [] \<longrightarrow> xs ! i \<noteq> xs ! j)"
    proof (induction xs)
      case Nil
      then show ?case by simp
    next
      case (Cons x xs)
      show ?case
      proof
        assume L: "distinct (filter (\<lambda>n. n \<noteq> []) (x # xs))"
        then have t: "distinct (filter (\<lambda>n. n \<noteq> []) xs)" and h: "x \<noteq> [] \<longrightarrow> x \<notin> set xs"
          by (auto split: if_splits)
        show "\<forall>i<length (x # xs). \<forall>j<length (x # xs). i \<noteq> j \<and> (x # xs) ! i \<noteq> [] \<longrightarrow>
                 (x # xs) ! i \<noteq> (x # xs) ! j"
        proof (intro allI impI)
          fix i j assume i: "i < length (x # xs)" and j: "j < length (x # xs)"
            and c: "i \<noteq> j \<and> (x # xs) ! i \<noteq> []"
          show "(x # xs) ! i \<noteq> (x # xs) ! j"
          proof (cases i)
            case 0
            then obtain j' where "j = Suc j'" using c by (cases j) auto
            then show ?thesis using 0 h c j by (auto simp: in_set_conv_nth)
          next
            case (Suc i')
            show ?thesis
            proof (cases j)
              case 0
              then show ?thesis using Suc h c i by (auto simp: in_set_conv_nth)
            next
              case (Suc j')
              then show ?thesis using \<open>i = Suc i'\<close> t Cons.IH c i j by auto
            qed
          qed
        qed
      next
        assume R: "\<forall>i<length (x # xs). \<forall>j<length (x # xs). i \<noteq> j \<and> (x # xs) ! i \<noteq> [] \<longrightarrow>
                 (x # xs) ! i \<noteq> (x # xs) ! j"
        have "\<forall>i<length xs. \<forall>j<length xs. i \<noteq> j \<and> xs ! i \<noteq> [] \<longrightarrow> xs ! i \<noteq> xs ! j"
        proof (intro allI impI)
          fix i j assume "i < length xs" "j < length xs" "i \<noteq> j \<and> xs ! i \<noteq> []"
          then show "xs ! i \<noteq> xs ! j" using R [rule_format, of "Suc i" "Suc j"] by simp
        qed
        then have t: "distinct (filter (\<lambda>n. n \<noteq> []) xs)" using Cons.IH by simp
        have "x \<noteq> [] \<longrightarrow> x \<notin> set xs"
        proof (intro impI notI)
          assume "x \<noteq> []" "x \<in> set xs"
          then obtain j where "j < length xs" "xs ! j = x" by (auto simp: in_set_conv_nth)
          then show False using R [rule_format, of 0 "Suc j"] \<open>x \<noteq> []\<close> by simp
        qed
        then show "distinct (filter (\<lambda>n. n \<noteq> []) (x # xs))" using t by simp
      qed
    qed
  qed
  from this [of "map struct_name ss"] show ?thesis by (simp add: distinctNames_def)
qed

lemma set_takenNames:
  "set (takenNames ss i) = {struct_name (ss ! j) | j. j < length ss \<and> j \<noteq> i \<and> struct_name (ss ! j) \<noteq> []}"
  by (auto simp: takenNames_def)

lemma renameStruct_length [simp]: "length (renameStruct i Y ss) = length ss"
  by (simp add: renameStruct_def)

lemma renameStruct_nth:
  "j < length ss \<Longrightarrow> renameStruct i Y ss ! j = (if j = i then (ss ! i)\<lparr>struct_name := Y\<rparr> else ss ! j)"
  by (simp add: renameStruct_def nth_list_update)

lemma distinctNames_rename:
  assumes "distinctNames ss" "i < length ss" "Y = [] \<or> Y \<notin> set (takenNames ss i)"
  shows "distinctNames (renameStruct i Y ss)"
  unfolding distinctNames_iff
proof (intro allI impI)
  fix a b
  assume a: "a < length (renameStruct i Y ss)" and b: "b < length (renameStruct i Y ss)"
    and c: "a \<noteq> b \<and> struct_name (renameStruct i Y ss ! a) \<noteq> []"
  have d: "\<And>x y. x < length ss \<Longrightarrow> y < length ss \<Longrightarrow> x \<noteq> y \<Longrightarrow> struct_name (ss ! x) \<noteq> [] \<Longrightarrow>
             struct_name (ss ! x) \<noteq> struct_name (ss ! y)"
    using assms(1) unfolding distinctNames_iff by blast
  show "struct_name (renameStruct i Y ss ! a) \<noteq> struct_name (renameStruct i Y ss ! b)"
  proof (cases "a = i")
    case True
    then have Y: "Y \<noteq> []" "b \<noteq> i" using c a by (auto simp: renameStruct_nth)
    then have "Y \<notin> set (takenNames ss i)" using assms(3) by simp
    then have "struct_name (ss ! b) \<noteq> Y" using b Y by (auto simp: set_takenNames)
    then show ?thesis using True a b Y by (auto simp: renameStruct_nth)
  next
    case False
    show ?thesis
    proof (cases "b = i")
      case True
      have na: "struct_name (ss ! a) \<noteq> []" using c a False by (simp add: renameStruct_nth)
      show ?thesis
      proof (cases "Y = []")
        case True
        then show ?thesis using \<open>b = i\<close> False a b na by (simp add: renameStruct_nth)
      next
        case Yn: False
        then have "Y \<notin> set (takenNames ss i)" using assms(3) by simp
        then have "struct_name (ss ! a) \<noteq> Y" using a False na by (auto simp: set_takenNames)
        then show ?thesis using True False a b by (simp add: renameStruct_nth)
      qed
    next
      case bf: False
      then show ?thesis using False a b c d [of a b] by (simp add: renameStruct_nth)
    qed
  qed
qed

lemma setName_cases:
  assumes "distinctNames (structs st)" "i < length (structs st)"
  shows "\<exists>Y u.
    setName i X st = st\<lparr>structs := renameStruct i Y (structs st), NamedStructTypesUniqueID := u\<rparr> \<and>
    (Y = [] \<or> Y \<notin> set (takenNames (structs st) i)) \<and>
    (X \<noteq> [] \<and> X \<notin> set (takenNames (structs st) i) \<longrightarrow> Y = X) \<and>
    (Y = X \<or> (\<exists>k. Y = numbered X k))"
proof -
  let ?ss = "structs st"
  let ?cur = "struct_name (?ss ! i)"
  let ?u = "NamedStructTypesUniqueID st"
  have cur_free: "?cur = [] \<or> ?cur \<notin> set (takenNames ?ss i)"
    using assms unfolding distinctNames_iff set_takenNames by fastforce
  have same: "renameStruct i ?cur ?ss = ?ss"
    using assms(2) by (simp add: renameStruct_def list_eq_iff_nth_eq nth_list_update)
  show ?thesis
  proof (cases "X = ?cur")
    case True
    then have "setName i X st = st\<lparr>structs := renameStruct i ?cur ?ss,
                 NamedStructTypesUniqueID := ?u\<rparr>"
      by (simp add: setName_def same)
    then show ?thesis using cur_free True
      by (intro exI [of _ ?cur] exI [of _ ?u]) simp
  next
    case False
    show ?thesis
    proof (cases "X = []")
      case True
      then have "setName i X st = st\<lparr>structs := renameStruct i [] ?ss,
                 NamedStructTypesUniqueID := ?u\<rparr>"
        using False by (simp add: setName_def)
      then show ?thesis using True
        by (intro exI [of _ "[]"] exI [of _ ?u]) simp
    next
      case Xn: False
      show ?thesis
      proof (cases "X \<in> set (takenNames ?ss i)")
        case True
        let ?k = "nextUnique (takenNames ?ss i) X ?u"
        have "setName i X st = st\<lparr>structs := renameStruct i (numbered X ?k) ?ss,
                 NamedStructTypesUniqueID := Suc ?k\<rparr>"
          using False Xn True by (simp add: setName_def Let_def)
        then show ?thesis using True nextUnique_fresh [of X "takenNames ?ss i" ?u]
          by (intro exI [of _ "numbered X ?k"] exI [of _ "Suc ?k"]) auto
      next
        case Xf: False
        then have "setName i X st = st\<lparr>structs := renameStruct i X ?ss,
                 NamedStructTypesUniqueID := ?u\<rparr>"
          using False Xn by (simp add: setName_def)
        then show ?thesis using Xf
          by (intro exI [of _ X] exI [of _ ?u]) simp
      qed
    qed
  qed
qed


lemma distinctNames_snoc_unnamed:
  "distinctNames ss \<Longrightarrow> distinctNames (ss @ [emptyStruct []])"
  by (simp add: distinctNames_def emptyStruct_def)

lemma renameStruct_append:
  "i < length ss \<Longrightarrow> renameStruct i Y (ss @ ts) = renameStruct i Y ss @ ts"
  by (simp add: renameStruct_def list_update_append nth_append)

lemma renameStruct_last:
  "renameStruct (length ss) Y (ss @ [emptyStruct Z]) = ss @ [emptyStruct Y]"
  by (simp add: renameStruct_def emptyStruct_def)

lemma renameStruct_same:
  "i < length ss \<Longrightarrow> renameStruct i (struct_name (ss ! i)) ss = ss"
  by (simp add: renameStruct_def list_eq_iff_nth_eq nth_list_update)

lemma bad_differs: "Name @ ''.bad'' \<noteq> Name"
  by simp

lemma numbered_differs: "numbered (Name @ ''.bad'') k \<noteq> Name"
proof
  assume "numbered (Name @ ''.bad'') k = Name"
  then have "length (numbered (Name @ ''.bad'') k) = length Name" by simp
  then show False by (simp add: numbered_def)
qed

lemma distinctNames_names:
  "map struct_name ss' = map struct_name ss \<Longrightarrow> distinctNames ss' = distinctNames ss"
  by (simp add: distinctNames_def)

lemma MappedTypes_setName [simp]: "MappedTypes (setName i X st) = MappedTypes st"
  by (simp add: setName_def Let_def)

text \<open>The placeholder step: the source struct is renamed, the new struct takes the
  source's name, and the names stay distinct.\<close>

lemma placeholder_spec:
  assumes dn: "distinctNames (structs st)" and i: "i < length (structs st)"
    and Ty: "Ty = structs st ! i"
  shows "\<exists>Y u. placeholder i Ty st =
            (length (structs st),
             st\<lparr>structs := renameStruct i Y (structs st) @ [emptyStruct (struct_name Ty)],
                NamedStructTypesUniqueID := u,
                MappedTypes := (MappedTypes st)(IdentifiedStruct i \<mapsto>
                                  IdentifiedStruct (length (structs st)))\<rparr>) \<and>
         distinctNames (renameStruct i Y (structs st) @ [emptyStruct (struct_name Ty)])"
proof -
  let ?ss = "structs st"
  let ?d = "length ?ss"
  let ?Name = "struct_name Ty"
  let ?st1 = "st\<lparr>structs := ?ss @ [emptyStruct []]\<rparr>"
  have cs: "createStruct st = (?d, ?st1)"
    by (simp add: createStruct_def emptyStruct_def)
  show ?thesis
  proof (cases "?Name = []")
    case True
    have rs: "renameStruct i ?Name ?ss = ?ss" using i Ty by (simp add: renameStruct_same)
    have "placeholder i Ty st =
            (?d, st\<lparr>structs := renameStruct i ?Name ?ss @ [emptyStruct ?Name],
                NamedStructTypesUniqueID := NamedStructTypesUniqueID st,
                MappedTypes := (MappedTypes st)(IdentifiedStruct i \<mapsto> IdentifiedStruct ?d)\<rparr>)"
      unfolding rs using True by (simp add: placeholder_def cs setMapped_def)
    moreover have "distinctNames (renameStruct i ?Name ?ss @ [emptyStruct ?Name])"
      unfolding rs using True dn by (simp add: distinctNames_snoc_unnamed)
    ultimately show ?thesis by blast
  next
    case False
    have dn1: "distinctNames (structs ?st1)" using dn by (simp add: distinctNames_snoc_unnamed)
    have i1: "i < length (structs ?st1)" using i by simp
    from setName_cases [OF dn1 i1, of "?Name @ ''.bad''"]
    obtain Y1 u1 where
      s2: "setName i (?Name @ ''.bad'') ?st1 =
             ?st1\<lparr>structs := renameStruct i Y1 (structs ?st1), NamedStructTypesUniqueID := u1\<rparr>"
      and Y1free: "Y1 = [] \<or> Y1 \<notin> set (takenNames (structs ?st1) i)"
      and Y1form: "Y1 = ?Name @ ''.bad'' \<or> (\<exists>k. Y1 = numbered (?Name @ ''.bad'') k)"
      by blast
    have Y1ne: "Y1 \<noteq> ?Name" using Y1form bad_differs numbered_differs by metis
    let ?ss2 = "renameStruct i Y1 ?ss @ [emptyStruct []]"
    let ?st2 = "st\<lparr>structs := ?ss2, NamedStructTypesUniqueID := u1\<rparr>"
    have s2': "setName i (?Name @ ''.bad'') ?st1 = ?st2"
      using s2 i by (simp add: renameStruct_append)
    have dn2: "distinctNames (structs ?st2)"
      using distinctNames_rename [OF dn1 i1 Y1free] i by (simp add: renameStruct_append)
    have d2: "?d < length (structs ?st2)" by simp
    have free: "?Name \<notin> set (takenNames (structs ?st2) ?d)"
    proof
      assume "?Name \<in> set (takenNames (structs ?st2) ?d)"
      then obtain j where j: "j < Suc ?d" "j \<noteq> ?d" "struct_name (?ss2 ! j) = ?Name"
        by (auto simp: set_takenNames)
      then have jl: "j < ?d" by simp
      show False
      proof (cases "j = i")
        case True
        then show False using j jl Y1ne by (simp add: nth_append renameStruct_nth)
      next
        case jne: False
        then have "struct_name (?ss ! j) = ?Name" using j jl by (simp add: nth_append renameStruct_nth)
        then show False using dn jl i jne False Ty unfolding distinctNames_iff by metis
      qed
    qed
    from setName_cases [OF dn2 d2, of ?Name] False free
    obtain Y2 u2 where
      s3: "setName ?d ?Name ?st2 =
             ?st2\<lparr>structs := renameStruct ?d Y2 (structs ?st2), NamedStructTypesUniqueID := u2\<rparr>"
      and Y2free: "Y2 = [] \<or> Y2 \<notin> set (takenNames (structs ?st2) ?d)"
      and Y2: "Y2 = ?Name"
      by blast
    have last: "renameStruct ?d ?Name ?ss2 = renameStruct i Y1 ?ss @ [emptyStruct ?Name]"
      using renameStruct_last [of "renameStruct i Y1 ?ss" ?Name "[]"] by simp
    have "placeholder i Ty st =
            (?d, st\<lparr>structs := renameStruct i Y1 ?ss @ [emptyStruct ?Name],
                NamedStructTypesUniqueID := u2,
                MappedTypes := (MappedTypes st)(IdentifiedStruct i \<mapsto> IdentifiedStruct ?d)\<rparr>)"
      using False by (simp add: placeholder_def cs s2' s3 Y2 last setMapped_def)
    moreover have "distinctNames (renameStruct i Y1 ?ss @ [emptyStruct ?Name])"
      using distinctNames_rename [OF dn2 d2 Y2free] Y2 last by simp
    ultimately show ?thesis by blast
  qed
qed

lemma MappedTypes_placeholder:
  "placeholder i Ty st = (d, st1) \<Longrightarrow>
     MappedTypes st1 = (MappedTypes st)(IdentifiedStruct i \<mapsto> IdentifiedStruct d)"
  by (auto simp: placeholder_def createStruct_def setMapped_def Let_def split: if_splits)

section \<open>The type rewriter keeps its invariant\<close>

lemma substType_cong:
  "(\<And>i. i \<in> structIds T \<Longrightarrow> \<sigma> i = \<sigma>' i) \<Longrightarrow> substType \<sigma> pol T = substType \<sigma>' pol T"
  by (induction T) auto

lemma mappedIds_closed:
  "inv_memo ss0 pol st \<Longrightarrow> i \<in> mappedIds st \<Longrightarrow> i < length ss0"
  by (auto simp: inv_memo_def mappedIds_def closedType_def)

lemma structMap_mapped:
  "MappedTypes st (IdentifiedStruct i) = Some D \<Longrightarrow> structMap st i = D"
  by (simp add: structMap_def)

lemma structMap_unmapped:
  "i \<notin> mappedIds st \<Longrightarrow> structMap st i = IdentifiedStruct i"
  by (simp add: structMap_def mappedIds_def)

lemma destOk_cases:
  assumes "inv_dest ss0 pol Open st" "j \<in> mappedIds st"
  shows "structMap st j = IdentifiedStruct j \<or>
         (\<exists>d. structMap st j = IdentifiedStruct d \<and> length ss0 \<le> d \<and> d < length (structs st))"
  using assms unfolding inv_dest_def destOk_def by (fastforce split: option.splits)

lemma closedType_mono: "closedType N T \<Longrightarrow> N \<le> M \<Longrightarrow> closedType M T"
  by (auto simp: closedType_def)

lemma structIds_substType:
  "structIds (substType \<sigma> pol T) = (\<Union>i \<in> structIds T. structIds (\<sigma> i))"
  by (induction T) auto

text \<open>Each write to the state keeps the invariant: the memo entry of a type that is no
  identified struct, of an opaque struct, the placeholder, and the body of the
  destination.\<close>

lemma Inv_setMapped_other:
  assumes inv: "Inv ss0 pol Open st"
    and cl: "closedType (length ss0) T"
    and ids: "structIds T \<subseteq> mappedIds st"
    and T': "T' = substType (structMap st) pol T"
    and no: "\<And>i. T \<noteq> IdentifiedStruct i"
  shows "Inv ss0 pol Open (setMapped T T' st)"
proof -
  let ?st' = "setMapped T T' st"
  have sm: "structMap ?st' = structMap st"
    using no by (auto simp: structMap_def setMapped_def fun_eq_iff)
  have mi: "mappedIds ?st' = mappedIds st"
    using no by (auto simp: mappedIds_def setMapped_def)
  have ss: "structs ?st' = structs st" by (simp add: setMapped_def)
  have "inv_memo ss0 pol ?st'"
    unfolding inv_memo_def sm mi
    using inv cl ids T' by (auto simp: Inv_def inv_memo_def setMapped_def)
  then show ?thesis
    using inv unfolding Inv_def inv_frame_def inv_dest_def destOk_def inv_onto_def sm mi ss
    by simp
qed

lemma Inv_setMapped_opaque:
  assumes inv: "Inv ss0 pol Open st"
    and i: "i < length ss0"
    and op: "struct_body (ss0 ! i) = None"
  shows "Inv ss0 pol Open (setMapped (IdentifiedStruct i) (IdentifiedStruct i) st)"
proof -
  let ?st' = "setMapped (IdentifiedStruct i) (IdentifiedStruct i) st"
  have old: "structMap st i = IdentifiedStruct i"
  proof (cases "i \<in> mappedIds st")
    case True
    then show ?thesis using inv op by (auto simp: Inv_def inv_dest_def destOk_def)
  next
    case False
    then show ?thesis by (rule structMap_unmapped)
  qed
  have sm: "structMap ?st' = structMap st"
    using old by (auto simp: structMap_def setMapped_def fun_eq_iff)
  have mi: "mappedIds ?st' = insert i (mappedIds st)"
    by (auto simp: mappedIds_def setMapped_def)
  have ss: "structs ?st' = structs st" by (simp add: setMapped_def)
  have memo: "inv_memo ss0 pol ?st'"
    unfolding inv_memo_def sm mi
    using inv i old by (auto simp: Inv_def inv_memo_def setMapped_def closedType_def)
  have frame: "inv_frame ss0 ?st'"
    using inv op unfolding Inv_def inv_frame_def mi ss by auto
  have dest: "inv_dest ss0 pol Open ?st'"
    unfolding inv_dest_def
  proof
    fix j assume j: "j \<in> mappedIds ?st'"
    show "destOk ss0 pol Open ?st' j"
    proof (cases "j = i")
      case True
      then show ?thesis using op old by (simp add: destOk_def sm)
    next
      case False
      then have "j \<in> mappedIds st" using j mi by simp
      then have "destOk ss0 pol Open st j"
        using inv unfolding Inv_def inv_dest_def by blast
      then show ?thesis unfolding destOk_def sm mi ss
        by (auto split: option.splits if_splits)
    qed
  qed
  have inj: "inj_on (structMap ?st') (mappedIds ?st')"
    unfolding sm mi
  proof (cases "i \<in> mappedIds st")
    case True
    then have "insert i (mappedIds st) = mappedIds st" by auto
    then show "inj_on (structMap st) (insert i (mappedIds st))" using inv by (simp add: Inv_def)
  next
    case False
    have "structMap st i \<notin> structMap st ` (mappedIds st - {i})"
    proof
      assume "structMap st i \<in> structMap st ` (mappedIds st - {i})"
      then obtain j where "j \<in> mappedIds st - {i}" "structMap st i = structMap st j"
        by blast
      then have j: "j \<in> mappedIds st" "j \<noteq> i" "structMap st j = IdentifiedStruct i"
        using old by auto
      have "case struct_body (ss0 ! j) of
           None \<Rightarrow> structMap st j = IdentifiedStruct j
         | Some Els \<Rightarrow> (\<exists>d. structMap st j = IdentifiedStruct d \<and> length ss0 \<le> d)"
        using inv j(1) unfolding Inv_def inv_dest_def destOk_def
        by (fastforce split: option.splits)
      then show False using j i by (auto split: option.splits)
    qed
    then show "inj_on (structMap st) (insert i (mappedIds st))"
      using inv by (simp add: Inv_def)
  qed
  have onto: "inv_onto ss0 ?st'"
    using inv unfolding Inv_def inv_onto_def sm mi ss by blast
  show ?thesis
    unfolding Inv_def using inv memo frame dest inj onto
    by (auto simp: Inv_def ss mi)
qed

lemma Inv_placeholder:
  assumes inv: "Inv ss0 pol Open st"
    and i: "i < length ss0"
    and un: "i \<notin> mappedIds st"
    and body: "struct_body (ss0 ! i) = Some Els"
  shows "\<exists>st1. placeholder i (structs st ! i) st = (length (structs st), st1) \<and>
           Inv ss0 pol (insert i Open) st1 \<and>
           MappedTypes st1 = (MappedTypes st)(IdentifiedStruct i \<mapsto>
                                IdentifiedStruct (length (structs st)))"
proof -
  let ?ss = "structs st"
  let ?d = "length ?ss"
  let ?N = "length ss0"
  have fr: "inv_frame ss0 st" and me: "inv_memo ss0 pol st" and de: "inv_dest ss0 pol Open st"
    and inj: "inj_on (structMap st) (mappedIds st)" and on: "inv_onto ss0 st"
    and dn: "distinctNames ?ss" and op: "Open \<subseteq> mappedIds st" and cs: "closedStructs ss0"
    using inv by (simp_all add: Inv_def)
  have Nd: "?N \<le> ?d" using fr by (simp add: inv_frame_def)
  have il: "i < ?d" using i Nd by simp
  have name_i: "struct_name (?ss ! i) = struct_name (ss0 ! i)"
    using fr i un by (simp add: inv_frame_def)
  from placeholder_spec [OF dn il refl]
  obtain Y u where
    ph: "placeholder i (?ss ! i) st =
            (?d, st\<lparr>structs := renameStruct i Y ?ss @ [emptyStruct (struct_name (?ss ! i))],
                NamedStructTypesUniqueID := u,
                MappedTypes := (MappedTypes st)(IdentifiedStruct i \<mapsto> IdentifiedStruct ?d)\<rparr>)"
    and dn1: "distinctNames (renameStruct i Y ?ss @ [emptyStruct (struct_name (?ss ! i))])"
    by blast
  define st1 where "st1 = st\<lparr>structs := renameStruct i Y ?ss @ [emptyStruct (struct_name (?ss ! i))],
                NamedStructTypesUniqueID := u,
                MappedTypes := (MappedTypes st)(IdentifiedStruct i \<mapsto> IdentifiedStruct ?d)\<rparr>"
  have mu1: "MappedTypes st1 = (MappedTypes st)(IdentifiedStruct i \<mapsto> IdentifiedStruct ?d)"
    by (simp add: st1_def)
  have len1: "length (structs st1) = Suc ?d" by (simp add: st1_def)
  have old: "\<And>j. j < ?d \<Longrightarrow>
      struct_body (structs st1 ! j) = struct_body (?ss ! j) \<and>
      struct_packed (structs st1 ! j) = struct_packed (?ss ! j) \<and>
      (j \<noteq> i \<longrightarrow> struct_name (structs st1 ! j) = struct_name (?ss ! j))"
    by (simp add: st1_def nth_append renameStruct_nth)
  have new: "structs st1 ! ?d = emptyStruct (struct_name (ss0 ! i))"
    by (simp add: st1_def nth_append name_i)
  have sm1: "structMap st1 = (structMap st)(i := IdentifiedStruct ?d)"
    by (auto simp: structMap_def mu1 fun_eq_iff)
  have mi1: "mappedIds st1 = insert i (mappedIds st)"
    by (auto simp: mappedIds_def mu1)
  have Mlt: "\<And>j. j \<in> mappedIds st \<Longrightarrow> j < ?N" using me by (rule mappedIds_closed)
  have frame1: "inv_frame ss0 st1"
    unfolding inv_frame_def
  proof (intro conjI allI impI)
    show "?N \<le> length (structs st1)" using Nd len1 by simp
  next
    fix j assume j: "j < ?N"
    then have jd: "j < ?d" using Nd by simp
    show "struct_body (structs st1 ! j) = struct_body (ss0 ! j)"
      using old [OF jd] fr j by (simp add: inv_frame_def)
    show "struct_packed (structs st1 ! j) = struct_packed (ss0 ! j)"
      using old [OF jd] fr j by (simp add: inv_frame_def)
    assume c: "j \<notin> mappedIds st1 \<or> struct_body (ss0 ! j) = None"
    then have "j \<noteq> i" using mi1 body by auto
    moreover have "j \<notin> mappedIds st \<or> struct_body (ss0 ! j) = None" using c mi1 by auto
    ultimately show "struct_name (structs st1 ! j) = struct_name (ss0 ! j)"
      using old [OF jd] fr j by (simp add: inv_frame_def)
  qed
  have stable: "\<And>T. structIds T \<subseteq> mappedIds st \<Longrightarrow>
      substType (structMap st1) pol T = substType (structMap st) pol T"
    by (rule substType_cong) (use un sm1 in auto)
  have memo1: "inv_memo ss0 pol st1"
    unfolding inv_memo_def
  proof (intro allI impI)
    fix T T' assume m: "MappedTypes st1 T = Some T'"
    show "closedType ?N T \<and> structIds T \<subseteq> mappedIds st1 \<and> T' = substType (structMap st1) pol T"
    proof (cases "T = IdentifiedStruct i")
      case True
      then show ?thesis using m i by (simp add: mu1 closedType_def mi1 sm1)
    next
      case False
      then have m0: "MappedTypes st T = Some T'" using m by (simp add: mu1)
      then have "closedType ?N T" "structIds T \<subseteq> mappedIds st"
        "T' = substType (structMap st) pol T"
        using me by (auto simp: inv_memo_def)
      then show ?thesis using stable [of T] mi1 by auto
    qed
  qed
  have dest1: "inv_dest ss0 pol (insert i Open) st1"
    unfolding inv_dest_def
  proof
    fix j assume j: "j \<in> mappedIds st1"
    show "destOk ss0 pol (insert i Open) st1 j"
    proof (cases "j = i")
      case True
      then show ?thesis
        unfolding destOk_def using body Nd len1 new
        by (simp add: sm1 emptyStruct_def)
    next
      case False
      then have jm: "j \<in> mappedIds st" using j mi1 by simp
      then have dj: "destOk ss0 pol Open st j" using de by (simp add: inv_dest_def)
      show ?thesis
      proof (cases "struct_body (ss0 ! j)")
        case None
        then show ?thesis using dj False by (simp add: destOk_def sm1)
      next
        case (Some Elsj)
        then obtain dd where dd: "structMap st j = IdentifiedStruct dd" "?N \<le> dd" "dd < ?d"
          "struct_name (?ss ! dd) = struct_name (ss0 ! j)"
          "if j \<in> Open then struct_body (?ss ! dd) = None
           else struct_body (?ss ! dd) = Some (map (substType (structMap st) pol) Elsj) \<and>
                struct_packed (?ss ! dd) = struct_packed (ss0 ! j) \<and>
                (\<forall>T \<in> set Elsj. structIds T \<subseteq> mappedIds st)"
          using dj by (auto simp: destOk_def)
        have ddi: "dd \<noteq> i" using dd(2) i by simp
        have o: "struct_body (structs st1 ! dd) = struct_body (?ss ! dd)"
          "struct_packed (structs st1 ! dd) = struct_packed (?ss ! dd)"
          "struct_name (structs st1 ! dd) = struct_name (?ss ! dd)"
          using old [OF dd(3)] ddi by simp_all
        have "structMap st1 j = IdentifiedStruct dd" using dd(1) False by (simp add: sm1)
        moreover have "dd < length (structs st1)" using dd(3) len1 by simp
        moreover have "if j \<in> insert i Open then struct_body (structs st1 ! dd) = None
           else struct_body (structs st1 ! dd) = Some (map (substType (structMap st1) pol) Elsj) \<and>
                struct_packed (structs st1 ! dd) = struct_packed (ss0 ! j) \<and>
                (\<forall>T \<in> set Elsj. structIds T \<subseteq> mappedIds st1)"
        proof (cases "j \<in> Open")
          case True
          then show ?thesis using dd(5) o by simp
        next
          case jo: False
          then have b: "struct_body (?ss ! dd) = Some (map (substType (structMap st) pol) Elsj)"
            "struct_packed (?ss ! dd) = struct_packed (ss0 ! j)"
            "\<forall>T \<in> set Elsj. structIds T \<subseteq> mappedIds st"
            using dd(5) by simp_all
          have "map (substType (structMap st1) pol) Elsj = map (substType (structMap st) pol) Elsj"
            using b(3) stable by simp
          then show ?thesis using jo False b o mi1 by auto
        qed
        ultimately show ?thesis
          unfolding destOk_def using Some dd(2,4) o(3) by auto
      qed
    qed
  qed
  have notd: "\<And>j. j \<in> mappedIds st \<Longrightarrow> structMap st j \<noteq> IdentifiedStruct ?d"
  proof
    fix j assume j: "j \<in> mappedIds st" and e: "structMap st j = IdentifiedStruct ?d"
    from destOk_cases [OF de j] e Mlt [OF j] Nd show False by auto
  qed
  have inj1: "inj_on (structMap st1) (mappedIds st1)"
  proof (rule inj_onI)
    fix x y assume x: "x \<in> mappedIds st1" and y: "y \<in> mappedIds st1"
      and e: "structMap st1 x = structMap st1 y"
    show "x = y"
    proof (cases "x = i")
      case True
      show ?thesis
      proof (rule ccontr)
        assume "x \<noteq> y"
        then have "y \<in> mappedIds st" "structMap st y = IdentifiedStruct ?d"
          using True y e by (simp_all add: mi1 sm1)
        then show False using notd by blast
      qed
    next
      case False
      then have xm: "x \<in> mappedIds st" using x by (simp add: mi1)
      show ?thesis
      proof (cases "y = i")
        case True
        then have "structMap st x = IdentifiedStruct ?d" using False e by (simp add: sm1)
        then show ?thesis using notd xm by blast
      next
        case yf: False
        then have "y \<in> mappedIds st" using y by (simp add: mi1)
        moreover have "structMap st x = structMap st y" using e False yf by (simp add: sm1)
        ultimately show ?thesis using inj xm by (auto dest: inj_onD)
      qed
    qed
  qed
  have onto1: "inv_onto ss0 st1"
    unfolding inv_onto_def
  proof (intro allI impI)
    fix d' assume d': "?N \<le> d' \<and> d' < length (structs st1)"
    show "\<exists>j \<in> mappedIds st1. structMap st1 j = IdentifiedStruct d'"
    proof (cases "d' = ?d")
      case True
      then show ?thesis by (auto simp: mi1 sm1)
    next
      case False
      then have "d' < ?d" using d' len1 by simp
      then obtain j where "j \<in> mappedIds st" "structMap st j = IdentifiedStruct d'"
        using on d' by (auto simp: inv_onto_def)
      then show ?thesis using un by (auto simp: mi1 sm1)
    qed
  qed
  have "Inv ss0 pol (insert i Open) st1"
    unfolding Inv_def using cs frame1 memo1 dest1 inj1 onto1 dn1 op
    by (auto simp: mi1) (simp add: st1_def)
  then show ?thesis using ph mu1 unfolding st1_def by blast
qed

lemma Inv_setBody:
  assumes inv: "Inv ss0 pol (insert i Open) st"
    and io: "i \<notin> Open"
    and body: "struct_body (ss0 ! i) = Some Els"
    and mu: "MappedTypes st (IdentifiedStruct i) = Some (IdentifiedStruct d)"
    and ids: "\<forall>T \<in> set Els. structIds T \<subseteq> mappedIds st"
    and P: "P = struct_packed (ss0 ! i)"
  shows "Inv ss0 pol Open
           (setMapped (IdentifiedStruct i) (IdentifiedStruct d)
              (setBody d (map (substType (structMap st) pol) Els) P st))"
proof -
  let ?ss = "structs st"
  let ?N = "length ss0"
  let ?B = "map (substType (structMap st) pol) Els"
  let ?ss' = "?ss[d := (?ss ! d)\<lparr>struct_body := Some ?B, struct_packed := P\<rparr>]"
  let ?st' = "setMapped (IdentifiedStruct i) (IdentifiedStruct d) (setBody d ?B P st)"
  have fr: "inv_frame ss0 st" and me: "inv_memo ss0 pol st"
    and de: "inv_dest ss0 pol (insert i Open) st"
    and inj: "inj_on (structMap st) (mappedIds st)" and on: "inv_onto ss0 st"
    and dn: "distinctNames ?ss" and op: "insert i Open \<subseteq> mappedIds st"
    and cs: "closedStructs ss0"
    using inv by (simp_all add: Inv_def)
  have im: "i \<in> mappedIds st" using mu by (simp add: mappedIds_def)
  have smi: "structMap st i = IdentifiedStruct d" using mu by (rule structMap_mapped)
  have di: "destOk ss0 pol (insert i Open) st i" using de im by (simp add: inv_dest_def)
  then have d: "?N \<le> d" "d < length ?ss" "struct_name (?ss ! d) = struct_name (ss0 ! i)"
    using body smi by (auto simp: destOk_def)
  have mu': "MappedTypes ?st' = MappedTypes st"
    using mu by (auto simp: setMapped_def setBody_def fun_eq_iff)
  have ss': "structs ?st' = ?ss'" by (simp add: setMapped_def setBody_def)
  have sm': "structMap ?st' = structMap st" by (simp add: structMap_def mu' fun_eq_iff)
  have mi': "mappedIds ?st' = mappedIds st" by (simp add: mappedIds_def mu')
  have len': "length ?ss' = length ?ss" by simp
  have other: "\<And>j. j \<noteq> d \<Longrightarrow> ?ss' ! j = ?ss ! j" by simp
  have atd: "struct_body (?ss' ! d) = Some ?B" "struct_packed (?ss' ! d) = P"
    "struct_name (?ss' ! d) = struct_name (?ss ! d)"
    using d(2) by simp_all
  have frame': "inv_frame ss0 ?st'"
    using fr d(1) unfolding inv_frame_def ss' mi' len'
    by (auto simp: nth_list_update)
  have memo': "inv_memo ss0 pol ?st'"
    using me unfolding inv_memo_def mu' sm' mi' .
  have dest': "inv_dest ss0 pol Open ?st'"
    unfolding inv_dest_def mi'
  proof
    fix j assume j: "j \<in> mappedIds st"
    have dj: "destOk ss0 pol (insert i Open) st j" using de j by (simp add: inv_dest_def)
    show "destOk ss0 pol Open ?st' j"
    proof (cases "j = i")
      case True
      then show ?thesis
        unfolding destOk_def sm' ss' mi' using body smi d atd io ids P by simp
    next
      case False
      show ?thesis
      proof (cases "struct_body (ss0 ! j)")
        case None
        then show ?thesis using dj by (simp add: destOk_def sm')
      next
        case (Some Elsj)
        then obtain dd where dd: "structMap st j = IdentifiedStruct dd" "?N \<le> dd"
          "dd < length ?ss" "struct_name (?ss ! dd) = struct_name (ss0 ! j)"
          "if j \<in> insert i Open then struct_body (?ss ! dd) = None
           else struct_body (?ss ! dd) = Some (map (substType (structMap st) pol) Elsj) \<and>
                struct_packed (?ss ! dd) = struct_packed (ss0 ! j) \<and>
                (\<forall>T \<in> set Elsj. structIds T \<subseteq> mappedIds st)"
          using dj by (auto simp: destOk_def)
        have "dd \<noteq> d"
        proof
          assume "dd = d"
          then have "structMap st j = structMap st i" using dd(1) smi by simp
          then show False using inj j im False by (auto dest: inj_onD)
        qed
        then have same: "?ss' ! dd = ?ss ! dd" by simp
        have "destOk ss0 pol Open st j"
          unfolding destOk_def using Some dd False by auto
        then show ?thesis
          unfolding destOk_def sm' ss' mi' using Some dd(1) same
          by (auto simp del: nth_list_update_neq)
      qed
    qed
  qed
  have onto': "inv_onto ss0 ?st'"
    using on unfolding inv_onto_def sm' mi' ss' len' .
  have names: "map struct_name ?ss' = map struct_name ?ss"
    using d(2) by (simp add: list_eq_iff_nth_eq nth_list_update)
  have dn': "distinctNames (structs ?st')"
    unfolding ss' using dn distinctNames_names [OF names] by simp
  show ?thesis
    unfolding Inv_def using cs frame' memo' dest' inj onto' dn' op
    by (simp add: sm' mi')
qed

text \<open>One step of \<open>remapType\<close>, kind by kind.\<close>

lemma remapType_mapped:
  "MappedTypes st T = Some D \<Longrightarrow> remapType (Suc n) pol T st = Some (D, st)"
  by simp

lemma remapType_leaf:
  assumes "MappedTypes st T = None" "T = OtherType k \<or> T = PointerType a"
  shows "remapType (Suc n) pol T st =
           Some (substType \<sigma> pol T, setMapped T (substType \<sigma> pol T) st)"
  using assms by auto

lemma remapType_FunctionType:
  "MappedTypes st (FunctionType r ps v) = None \<Longrightarrow>
   remapType (Suc n) pol (FunctionType r ps v) st = Some (T', st') \<longleftrightarrow>
   (\<exists>ps' st1 r' st2. remapEach (remapType n pol) ps st = Some (ps', st1) \<and>
      remapType n pol r st1 = Some (r', st2) \<and> T' = FunctionType r' ps' v \<and>
      st' = setMapped (FunctionType r ps v) T' st2)"
  by (auto split: option.splits)

lemma remapType_LiteralStruct:
  "MappedTypes st (LiteralStruct es p) = None \<Longrightarrow>
   remapType (Suc n) pol (LiteralStruct es p) st = Some (T', st') \<longleftrightarrow>
   (\<exists>es' st1. remapEach (remapType n pol) es st = Some (es', st1) \<and>
      T' = LiteralStruct es' p \<and> st' = setMapped (LiteralStruct es p) T' st1)"
  by (auto split: option.splits)

lemma remapType_ArrayType:
  "MappedTypes st (ArrayType e k) = None \<Longrightarrow>
   remapType (Suc n) pol (ArrayType e k) st = Some (T', st') \<longleftrightarrow>
   (\<exists>e' st1. remapType n pol e st = Some (e', st1) \<and>
      T' = ArrayType e' k \<and> st' = setMapped (ArrayType e k) T' st1)"
  by (auto split: option.splits)

lemma remapType_VectorType:
  "MappedTypes st (VectorType e k s) = None \<Longrightarrow>
   remapType (Suc n) pol (VectorType e k s) st = Some (T', st') \<longleftrightarrow>
   (\<exists>e' st1. remapType n pol e st = Some (e', st1) \<and>
      T' = VectorType e' k s \<and> st' = setMapped (VectorType e k s) T' st1)"
  by (auto split: option.splits)

lemma remapType_opaque:
  assumes "MappedTypes st (IdentifiedStruct i) = None"
    "getStruct st i = Some Ty" "struct_body Ty = None"
  shows "remapType (Suc n) pol (IdentifiedStruct i) st =
           Some (IdentifiedStruct i, setMapped (IdentifiedStruct i) (IdentifiedStruct i) st)"
  using assms by simp

lemma remapType_IdentifiedStruct:
  assumes "MappedTypes st (IdentifiedStruct i) = None"
    "getStruct st i = Some Ty" "struct_body Ty = Some Els" "placeholder i Ty st = (d, st1)"
  shows "remapType (Suc n) pol (IdentifiedStruct i) st = Some (T', st') \<longleftrightarrow>
     (\<exists>New st2. remapEach (remapType n pol) Els st1 = Some (New, st2) \<and>
        T' = IdentifiedStruct d \<and>
        st' = setMapped (IdentifiedStruct i) (IdentifiedStruct d)
                (setBody d New (struct_packed Ty) st2))"
  using assms by (auto split: option.splits)

lemma remapType_leaf_indep:
  assumes "MappedTypes st T = None" "T = OtherType k \<or> T = PointerType a"
  shows "remapType (Suc n) pol T st = remapType (Suc m) pol T st"
  using assms by (auto simp: remapType.simps(2))

lemma remapType_dangling_indep:
  assumes "MappedTypes st (IdentifiedStruct i) = None" "getStruct st i = None"
  shows "remapType (Suc n) pol (IdentifiedStruct i) st = remapType (Suc m) pol (IdentifiedStruct i) st"
  using assms by (auto simp: remapType.simps(2))

declare remapType.simps(2) [simp del]

lemma map_le_setMapped:
  "MappedTypes st T = None \<Longrightarrow> MappedTypes st \<subseteq>\<^sub>m MappedTypes st1 \<Longrightarrow>
   MappedTypes st \<subseteq>\<^sub>m MappedTypes (setMapped T D st1)"
  by (auto simp: map_le_def setMapped_def dom_def)

lemma map_le_Some: "m \<subseteq>\<^sub>m m' \<Longrightarrow> m k = Some v \<Longrightarrow> m' k = Some v"
  by (metis domI map_le_def)

lemma remapEach_correct:
  assumes step: "\<And>T st T' st'. T \<in> set Ts \<Longrightarrow> Inv ss0 pol Open st \<Longrightarrow> f T st = Some (T', st') \<Longrightarrow>
            Inv ss0 pol Open st' \<and> MappedTypes st \<subseteq>\<^sub>m MappedTypes st' \<and> MappedTypes st' T = Some T'"
    and "Inv ss0 pol Open st" and "remapEach f Ts st = Some (Ts', st')"
  shows "Inv ss0 pol Open st' \<and> MappedTypes st \<subseteq>\<^sub>m MappedTypes st' \<and>
         list_all2 (\<lambda>T T'. MappedTypes st' T = Some T') Ts Ts'"
  using assms
proof (induction Ts arbitrary: st Ts')
  case Nil
  then show ?case by simp
next
  case (Cons T Ts)
  from Cons.prems(3) obtain T1 st1 Ts1 where
    a: "f T st = Some (T1, st1)" and b: "remapEach f Ts st1 = Some (Ts1, st')"
    and c: "Ts' = T1 # Ts1"
    by (auto split: option.splits)
  from Cons.prems(1) [OF _ Cons.prems(2) a]
  have 1: "Inv ss0 pol Open st1" "MappedTypes st \<subseteq>\<^sub>m MappedTypes st1"
    "MappedTypes st1 T = Some T1" by simp_all
  have "Inv ss0 pol Open st' \<and> MappedTypes st1 \<subseteq>\<^sub>m MappedTypes st' \<and>
         list_all2 (\<lambda>T T'. MappedTypes st' T = Some T') Ts Ts1"
    by (rule Cons.IH [OF _ 1(1) b]) (use Cons.prems(1) in auto)
  then show ?case using 1 c by (auto intro: map_le_trans map_le_Some)
qed

lemma remapEach_preserves:
  assumes "\<And>T st T' st'. T \<in> set Ts \<Longrightarrow> P st \<Longrightarrow> f T st = Some (T', st') \<Longrightarrow> P st'"
    and "P st" and "remapEach f Ts st = Some (Ts', st')"
  shows "P st'"
  using assms
proof (induction Ts arbitrary: st Ts')
  case Nil
  then show ?case by simp
next
  case (Cons T Ts)
  from Cons.prems(3) obtain T1 st1 Ts1 where
    a: "f T st = Some (T1, st1)" and b: "remapEach f Ts st1 = Some (Ts1, st')"
    by (auto split: option.splits)
  have "P st1" using Cons.prems(1) [OF _ Cons.prems(2) a] by simp
  then show ?case using Cons.IH [OF _ _ b] Cons.prems(1) by auto
qed

lemma remapEach_mono:
  assumes "\<And>T st r. T \<in> set Ts \<Longrightarrow> f T st = Some r \<Longrightarrow> g T st = Some r"
    and "remapEach f Ts st = Some r"
  shows "remapEach g Ts st = Some r"
  using assms
proof (induction Ts arbitrary: st r)
  case Nil
  then show ?case by simp
next
  case (Cons T Ts)
  from Cons.prems(2) obtain T1 st1 Ts1 st2 where
    a: "f T st = Some (T1, st1)" and b: "remapEach f Ts st1 = Some (Ts1, st2)"
    and c: "r = (T1 # Ts1, st2)"
    by (auto split: option.splits)
  have "g T st = Some (T1, st1)" using Cons.prems(1) a by simp
  moreover have "remapEach g Ts st1 = Some (Ts1, st2)"
    by (rule Cons.IH [OF _ b]) (use Cons.prems(1) in auto)
  ultimately show ?case using c by simp
qed

lemma mapped_subst:
  assumes "Inv ss0 pol Open st" "MappedTypes st T = Some T'"
  shows "T' = substType (structMap st) pol T" "structIds T \<subseteq> mappedIds st"
  using assms by (auto simp: Inv_def inv_memo_def)

lemma mapped_subst_list:
  assumes "Inv ss0 pol Open st" "list_all2 (\<lambda>T T'. MappedTypes st T = Some T') Ts Ts'"
  shows "Ts' = map (substType (structMap st) pol) Ts" "\<forall>T \<in> set Ts. structIds T \<subseteq> mappedIds st"
proof -
  have "list_all2 (\<lambda>T T'. T' = substType (structMap st) pol T \<and> structIds T \<subseteq> mappedIds st) Ts Ts'"
    using assms(2) by (rule list_all2_mono) (use mapped_subst [OF assms(1)] in auto)
  then show "Ts' = map (substType (structMap st) pol) Ts"
    "\<forall>T \<in> set Ts. structIds T \<subseteq> mappedIds st"
    by (induction rule: list_all2_induct) auto
qed

lemma finish_other:
  assumes "Inv ss0 pol Open st2" "closedType (length ss0) T" "structIds T \<subseteq> mappedIds st2"
    "T' = substType (structMap st2) pol T" "\<And>i. T \<noteq> IdentifiedStruct i"
    "MappedTypes st T = None" "MappedTypes st \<subseteq>\<^sub>m MappedTypes st2"
  shows "Inv ss0 pol Open (setMapped T T' st2) \<and>
         MappedTypes st \<subseteq>\<^sub>m MappedTypes (setMapped T T' st2) \<and>
         MappedTypes (setMapped T T' st2) T = Some T'"
  using Inv_setMapped_other [OF assms(1-5)] map_le_setMapped [OF assms(6,7)]
  by (simp add: setMapped_def)

lemma Inv_getStruct:
  assumes "Inv ss0 pol Open st" "i < length ss0"
  shows "getStruct st i = Some (structs st ! i)"
    "struct_body (structs st ! i) = struct_body (ss0 ! i)"
    "struct_packed (structs st ! i) = struct_packed (ss0 ! i)"
  using assms by (auto simp: Inv_def inv_frame_def getStruct_def)

lemma closed_body:
  assumes "closedStructs ss0" "i < length ss0" "struct_body (ss0 ! i) = Some Els"
  shows "\<forall>T \<in> set Els. closedType (length ss0) T"
  using assms unfolding closedStructs_def bodyTypes_def
  by (metis nth_mem option.simps(5))

text \<open>Whenever \<open>remapType\<close> returns, the invariant holds again, the memo has only grown,
  and the result is the memo's entry for the source type.\<close>

lemma remapType_correct:
  "Inv ss0 pol Open st \<Longrightarrow> closedType (length ss0) T \<Longrightarrow>
   remapType n pol T st = Some (T', st') \<Longrightarrow>
     Inv ss0 pol Open st' \<and> MappedTypes st \<subseteq>\<^sub>m MappedTypes st' \<and> MappedTypes st' T = Some T'"
proof (induction n arbitrary: T st T' st' Open)
  case 0
  then show ?case by simp
next
  case (Suc n)
  note inv = Suc.prems(1) and cl = Suc.prems(2) and run = Suc.prems(3)
  let ?N = "length ss0"
  show ?case
  proof (cases "MappedTypes st T")
    case (Some D)
    then show ?thesis using run inv by (simp add: remapType_mapped)
  next
    case None
    have each: "\<And>Ts Open st Ts' st'. \<forall>U \<in> set Ts. closedType ?N U \<Longrightarrow> Inv ss0 pol Open st \<Longrightarrow>
        remapEach (remapType n pol) Ts st = Some (Ts', st') \<Longrightarrow>
        Inv ss0 pol Open st' \<and> MappedTypes st \<subseteq>\<^sub>m MappedTypes st' \<and>
        Ts' = map (substType (structMap st') pol) Ts \<and>
        (\<forall>U \<in> set Ts. structIds U \<subseteq> mappedIds st')"
    proof -
      fix Ts Open st Ts' st'
      assume c: "\<forall>U \<in> set Ts. closedType ?N U" and i: "Inv ss0 pol Open st"
        and r: "remapEach (remapType n pol) Ts st = Some (Ts', st')"
      have "Inv ss0 pol Open st' \<and> MappedTypes st \<subseteq>\<^sub>m MappedTypes st' \<and>
         list_all2 (\<lambda>T T'. MappedTypes st' T = Some T') Ts Ts'"
        by (rule remapEach_correct [OF _ i r]) (use c Suc.IH in blast)
      then show "Inv ss0 pol Open st' \<and> MappedTypes st \<subseteq>\<^sub>m MappedTypes st' \<and>
        Ts' = map (substType (structMap st') pol) Ts \<and>
        (\<forall>U \<in> set Ts. structIds U \<subseteq> mappedIds st')"
        using mapped_subst_list [of ss0 pol Open st' Ts Ts'] by blast
    qed
    show ?thesis
    proof (cases T)
      case (OtherType k)
      have "remapType (Suc n) pol T st =
              Some (substType (structMap st) pol T, setMapped T (substType (structMap st) pol T) st)"
        by (rule remapType_leaf [OF None]) (use OtherType in simp)
      with run have e: "T' = substType (structMap st) pol T" "st' = setMapped T T' st"
        by auto
      show ?thesis unfolding e(2)
        by (rule finish_other [OF inv cl _ e(1) _ None]) (use OtherType in simp_all)
    next
      case (PointerType a)
      have "remapType (Suc n) pol T st =
              Some (substType (structMap st) pol T, setMapped T (substType (structMap st) pol T) st)"
        by (rule remapType_leaf [OF None]) (use PointerType in simp)
      with run have e: "T' = substType (structMap st) pol T" "st' = setMapped T T' st"
        by auto
      show ?thesis unfolding e(2)
        by (rule finish_other [OF inv cl _ e(1) _ None]) (use PointerType in simp_all)
    next
      case (FunctionType r ps v)
      from run None obtain ps' st1 r' st2 where
        a: "remapEach (remapType n pol) ps st = Some (ps', st1)" and
        b: "remapType n pol r st1 = Some (r', st2)" and
        c: "T' = FunctionType r' ps' v" "st' = setMapped T T' st2"
        unfolding FunctionType by (auto simp: remapType_FunctionType)
      have clp: "\<forall>U \<in> set ps. closedType ?N U" and clr: "closedType ?N r"
        using cl FunctionType by (auto simp: closedType_def)
      from each [OF clp inv a]
      have 1: "Inv ss0 pol Open st1" "MappedTypes st \<subseteq>\<^sub>m MappedTypes st1"
        "ps' = map (substType (structMap st1) pol) ps"
        "\<forall>U \<in> set ps. structIds U \<subseteq> mappedIds st1" by simp_all
      from Suc.IH [OF 1(1) clr b]
      have 2: "Inv ss0 pol Open st2" "MappedTypes st1 \<subseteq>\<^sub>m MappedTypes st2"
        "MappedTypes st2 r = Some r'" by simp_all
      have m12: "mappedIds st1 \<subseteq> mappedIds st2"
        using 2(2) by (auto simp: mappedIds_def dest: map_le_Some)
      have s12: "\<And>i. i \<in> mappedIds st1 \<Longrightarrow> structMap st2 i = structMap st1 i"
        using 2(2) by (auto simp: mappedIds_def structMap_def dest: map_le_Some)
      have ps2: "ps' = map (substType (structMap st2) pol) ps"
        unfolding 1(3) using 1(4) s12 by (auto intro!: substType_cong) (metis subsetD)
      have r2: "r' = substType (structMap st2) pol r" "structIds r \<subseteq> mappedIds st2"
        using mapped_subst [OF 2(1) 2(3)] by simp_all
      have ids: "structIds T \<subseteq> mappedIds st2"
        using FunctionType 1(4) m12 r2(2) by auto
      have T': "T' = substType (structMap st2) pol T"
        using c(1) ps2 r2(1) FunctionType by simp
      show ?thesis unfolding c(2)
        by (rule finish_other [OF 2(1) cl ids T' _ None map_le_trans [OF 1(2) 2(2)]])
           (use FunctionType in simp)
    next
      case (LiteralStruct es p)
      from run None obtain es' st1 where
        a: "remapEach (remapType n pol) es st = Some (es', st1)" and
        c: "T' = LiteralStruct es' p" "st' = setMapped T T' st1"
        unfolding LiteralStruct by (auto simp: remapType_LiteralStruct)
      have cle: "\<forall>U \<in> set es. closedType ?N U"
        using cl LiteralStruct by (auto simp: closedType_def)
      from each [OF cle inv a]
      have 1: "Inv ss0 pol Open st1" "MappedTypes st \<subseteq>\<^sub>m MappedTypes st1"
        "es' = map (substType (structMap st1) pol) es"
        "\<forall>U \<in> set es. structIds U \<subseteq> mappedIds st1" by simp_all
      have ids: "structIds T \<subseteq> mappedIds st1" using LiteralStruct 1(4) by auto
      have T': "T' = substType (structMap st1) pol T" using c(1) 1(3) LiteralStruct by simp
      show ?thesis unfolding c(2)
        by (rule finish_other [OF 1(1) cl ids T' _ None 1(2)]) (use LiteralStruct in simp)
    next
      case (ArrayType e k)
      from run None obtain e' st1 where
        a: "remapType n pol e st = Some (e', st1)" and
        c: "T' = ArrayType e' k" "st' = setMapped T T' st1"
        unfolding ArrayType by (auto simp: remapType_ArrayType)
      have cle: "closedType ?N e" using cl ArrayType by (auto simp: closedType_def)
      from Suc.IH [OF inv cle a]
      have 1: "Inv ss0 pol Open st1" "MappedTypes st \<subseteq>\<^sub>m MappedTypes st1"
        "MappedTypes st1 e = Some e'" by simp_all
      have e1: "e' = substType (structMap st1) pol e" "structIds e \<subseteq> mappedIds st1"
        using mapped_subst [OF 1(1) 1(3)] by simp_all
      have ids: "structIds T \<subseteq> mappedIds st1" using ArrayType e1(2) by simp
      have T': "T' = substType (structMap st1) pol T" using c(1) e1(1) ArrayType by simp
      show ?thesis unfolding c(2)
        by (rule finish_other [OF 1(1) cl ids T' _ None 1(2)]) (use ArrayType in simp)
    next
      case (VectorType e k s)
      from run None obtain e' st1 where
        a: "remapType n pol e st = Some (e', st1)" and
        c: "T' = VectorType e' k s" "st' = setMapped T T' st1"
        unfolding VectorType by (auto simp: remapType_VectorType)
      have cle: "closedType ?N e" using cl VectorType by (auto simp: closedType_def)
      from Suc.IH [OF inv cle a]
      have 1: "Inv ss0 pol Open st1" "MappedTypes st \<subseteq>\<^sub>m MappedTypes st1"
        "MappedTypes st1 e = Some e'" by simp_all
      have e1: "e' = substType (structMap st1) pol e" "structIds e \<subseteq> mappedIds st1"
        using mapped_subst [OF 1(1) 1(3)] by simp_all
      have ids: "structIds T \<subseteq> mappedIds st1" using VectorType e1(2) by simp
      have T': "T' = substType (structMap st1) pol T" using c(1) e1(1) VectorType by simp
      show ?thesis unfolding c(2)
        by (rule finish_other [OF 1(1) cl ids T' _ None 1(2)]) (use VectorType in simp)
    next
      case (IdentifiedStruct i)
      have i: "i < ?N" using cl IdentifiedStruct by (simp add: closedType_def)
      have un: "i \<notin> mappedIds st" using None IdentifiedStruct by (simp add: mappedIds_def)
      note gs = Inv_getStruct [OF inv i]
      show ?thesis
      proof (cases "struct_body (ss0 ! i)")
        case nb: None
        have "remapType (Suc n) pol (IdentifiedStruct i) st =
           Some (IdentifiedStruct i, setMapped (IdentifiedStruct i) (IdentifiedStruct i) st)"
          by (rule remapType_opaque [OF _ gs(1)]) (use None IdentifiedStruct gs(2) nb in simp_all)
        with run have e: "T' = IdentifiedStruct i" "st' = setMapped T T' st"
          using IdentifiedStruct by auto
        have "Inv ss0 pol Open st'"
          unfolding e IdentifiedStruct by (rule Inv_setMapped_opaque [OF inv i nb])
        moreover have "MappedTypes st \<subseteq>\<^sub>m MappedTypes st'"
          unfolding e(2) by (rule map_le_setMapped [OF None]) simp
        moreover have "MappedTypes st' T = Some T'" by (simp add: e(2) setMapped_def)
        ultimately show ?thesis by blast
      next
        case (Some Els)
        let ?d = "length (structs st)"
        from Inv_placeholder [OF inv i un Some]
        obtain st1 where
          ph: "placeholder i (structs st ! i) st = (?d, st1)" and
          inv1: "Inv ss0 pol (insert i Open) st1" and
          mu1: "MappedTypes st1 = (MappedTypes st)(IdentifiedStruct i \<mapsto> IdentifiedStruct ?d)"
          by blast
        have b: "struct_body (structs st ! i) = Some Els" using gs(2) Some by simp
        from run obtain New st2 where
          a: "remapEach (remapType n pol) Els st1 = Some (New, st2)" and
          c: "T' = IdentifiedStruct ?d"
             "st' = setMapped (IdentifiedStruct i) (IdentifiedStruct ?d)
                      (setBody ?d New (struct_packed (structs st ! i)) st2)"
          unfolding IdentifiedStruct
          using remapType_IdentifiedStruct [OF _ gs(1) b ph, of n pol T' st'] None IdentifiedStruct
          by auto
        have cle: "\<forall>U \<in> set Els. closedType ?N U"
          using closed_body [OF _ i Some] inv by (simp add: Inv_def)
        from each [OF cle inv1 a]
        have 2: "Inv ss0 pol (insert i Open) st2" "MappedTypes st1 \<subseteq>\<^sub>m MappedTypes st2"
          "New = map (substType (structMap st2) pol) Els"
          "\<forall>U \<in> set Els. structIds U \<subseteq> mappedIds st2" by simp_all
        have m2: "MappedTypes st2 (IdentifiedStruct i) = Some (IdentifiedStruct ?d)"
          using 2(2) mu1 by (auto dest: map_le_Some)
        have io: "i \<notin> Open" using un inv by (auto simp: Inv_def)
        have "Inv ss0 pol Open st'"
          unfolding c(2) 2(3)
          by (rule Inv_setBody [OF 2(1) io Some m2 2(4)]) (simp add: gs(3))
        moreover have "MappedTypes st' = MappedTypes st2"
          using m2 by (auto simp: c(2) setMapped_def setBody_def fun_eq_iff)
        moreover have "MappedTypes st \<subseteq>\<^sub>m MappedTypes st1"
          using None IdentifiedStruct by (auto simp: mu1 map_le_def)
        ultimately show ?thesis
          using 2(2) m2 c(1) IdentifiedStruct by (auto intro: map_le_trans)
      qed
    qed
  qed
qed

lemma remapTypes_correct:
  assumes c: "\<forall>U \<in> set Ts. closedType (length ss0) U" and i: "Inv ss0 pol Open st"
    and r: "remapEach (remapType n pol) Ts st = Some (Ts', st')"
  shows "Inv ss0 pol Open st'" "MappedTypes st \<subseteq>\<^sub>m MappedTypes st'"
    "Ts' = map (substType (structMap st') pol) Ts"
    "\<forall>U \<in> set Ts. structIds U \<subseteq> mappedIds st'"
proof -
  have *: "Inv ss0 pol Open st' \<and> MappedTypes st \<subseteq>\<^sub>m MappedTypes st' \<and>
         list_all2 (\<lambda>T T'. MappedTypes st' T = Some T') Ts Ts'"
    by (rule remapEach_correct [OF _ i r]) (use c remapType_correct in blast)
  then show "Inv ss0 pol Open st'" "MappedTypes st \<subseteq>\<^sub>m MappedTypes st'" by simp_all
  from * mapped_subst_list [of ss0 pol Open st' Ts Ts']
  show "Ts' = map (substType (structMap st') pol) Ts"
    "\<forall>U \<in> set Ts. structIds U \<subseteq> mappedIds st'" by simp_all
qed

text \<open>More fuel never changes a result.\<close>

lemma remapType_Suc_mono:
  "remapType n pol T st = Some r \<Longrightarrow> remapType (Suc n) pol T st = Some r"
proof (induction n arbitrary: T st r)
  case 0
  then show ?case by simp
next
  case (Suc n)
  obtain T' st' where r: "r = (T', st')" by (cases r)
  note run = Suc.prems [unfolded r]
  have each: "\<And>Ts st r. remapEach (remapType n pol) Ts st = Some r \<Longrightarrow>
                 remapEach (remapType (Suc n) pol) Ts st = Some r"
    by (rule remapEach_mono) (use Suc.IH in auto)
  show ?case unfolding r
  proof (cases "MappedTypes st T")
    case (Some D)
    then show "remapType (Suc (Suc n)) pol T st = Some (T', st')"
      using run by (simp add: remapType_mapped)
  next
    case None
    show "remapType (Suc (Suc n)) pol T st = Some (T', st')"
    proof (cases T)
      case (OtherType k)
      have "remapType (Suc (Suc n)) pol T st = remapType (Suc n) pol T st"
        by (rule remapType_leaf_indep [OF None]) (use OtherType in simp)
      then show ?thesis using run by simp
    next
      case (PointerType a)
      have "remapType (Suc (Suc n)) pol T st = remapType (Suc n) pol T st"
        by (rule remapType_leaf_indep [OF None]) (use PointerType in simp)
      then show ?thesis using run by simp
    next
      case (FunctionType r ps v)
      then show ?thesis using run None Suc.IH each
        by (auto simp: remapType_FunctionType)
    next
      case (LiteralStruct es p)
      then show ?thesis using run None each
        by (auto simp: remapType_LiteralStruct)
    next
      case (ArrayType e k)
      then show ?thesis using run None Suc.IH
        by (auto simp: remapType_ArrayType)
    next
      case (VectorType e k s)
      then show ?thesis using run None Suc.IH
        by (auto simp: remapType_VectorType)
    next
      case (IdentifiedStruct i)
      show ?thesis
      proof (cases "getStruct st i")
        case gn: None
        have "remapType (Suc (Suc n)) pol (IdentifiedStruct i) st
                = remapType (Suc n) pol (IdentifiedStruct i) st"
          by (rule remapType_dangling_indep [OF _ gn]) (use None IdentifiedStruct in simp)
        then show ?thesis using run IdentifiedStruct by simp
      next
        case (Some Ty)
        show ?thesis
        proof (cases "struct_body Ty")
          case bn: None
          have m: "MappedTypes st (IdentifiedStruct i) = None" using None IdentifiedStruct by simp
          show ?thesis
            using run unfolding IdentifiedStruct
            by (simp only: remapType_opaque [OF m Some bn])
        next
          case (Some Els)
          obtain d st1 where ph: "placeholder i Ty st = (d, st1)" by (cases "placeholder i Ty st")
          show ?thesis
            using run None IdentifiedStruct each
              remapType_IdentifiedStruct [OF _ \<open>getStruct st i = Some Ty\<close> Some ph, of n pol T' st']
              remapType_IdentifiedStruct [OF _ \<open>getStruct st i = Some Ty\<close> Some ph, of "Suc n" pol T' st']
            by auto
        qed
      qed
    qed
  qed
qed

lemma remapType_mono:
  "remapType n pol T st = Some r \<Longrightarrow> n \<le> m \<Longrightarrow> remapType m pol T st = Some r"
proof (induction m)
  case 0
  then show ?case by simp
next
  case (Suc m)
  then show ?case by (cases "n = Suc m") (auto intro: remapType_Suc_mono)
qed

text \<open>
  Enough fuel gives a result. The measure is the number of structs of \<open>ss0\<close> the memo does
  not hold yet, then the size of the type: the placeholder enters the memo before the
  elements are rewritten, so a struct met again is answered by the memo.
\<close>

lemma finite_unmapped [simp]: "finite (unmapped ss0 st)"
  by (simp add: unmapped_def)

lemma unmapped_mono:
  "MappedTypes st \<subseteq>\<^sub>m MappedTypes st' \<Longrightarrow> card (unmapped ss0 st') \<le> card (unmapped ss0 st)"
proof (rule card_mono)
  assume le: "MappedTypes st \<subseteq>\<^sub>m MappedTypes st'"
  show "unmapped ss0 st' \<subseteq> unmapped ss0 st"
  proof
    fix x assume "x \<in> unmapped ss0 st'"
    then have x: "x < length ss0" "MappedTypes st' (IdentifiedStruct x) = None"
      by (simp_all add: unmapped_def mappedIds_def)
    have "MappedTypes st (IdentifiedStruct x) = None"
    proof (cases "MappedTypes st (IdentifiedStruct x)")
      case None
      then show ?thesis .
    next
      case (Some v)
      then show ?thesis using map_le_Some [OF le Some] x(2) by simp
    qed
    then show "x \<in> unmapped ss0 st" using x(1) by (simp add: unmapped_def mappedIds_def)
  qed
qed simp

lemma unmapped_placeholder:
  assumes "MappedTypes st1 = (MappedTypes st)(IdentifiedStruct i \<mapsto> D)"
    "i < length ss0" "i \<notin> mappedIds st"
  shows "card (unmapped ss0 st1) < card (unmapped ss0 st)"
proof (rule psubset_card_mono)
  show "finite (unmapped ss0 st)" by simp
  have "i \<in> unmapped ss0 st" using assms by (simp add: unmapped_def)
  moreover have "i \<notin> unmapped ss0 st1" using assms by (simp add: unmapped_def mappedIds_def)
  moreover have "unmapped ss0 st1 \<subseteq> unmapped ss0 st"
    using assms by (auto simp: unmapped_def mappedIds_def)
  ultimately show "unmapped ss0 st1 \<subset> unmapped ss0 st" by blast
qed

lemma each_terminates:
  assumes step: "\<And>T st. T \<in> set Ts \<Longrightarrow> Inv ss0 pol Open st \<Longrightarrow> card (unmapped ss0 st) \<le> k \<Longrightarrow>
            \<exists>n r. remapType n pol T st = Some r"
    and cl: "\<forall>T \<in> set Ts. closedType (length ss0) T"
    and "Inv ss0 pol Open st" and "card (unmapped ss0 st) \<le> k"
  shows "\<exists>n r. remapEach (remapType n pol) Ts st = Some r"
  using assms
proof (induction Ts arbitrary: st)
  case Nil
  then show ?case by simp
next
  case (Cons T Ts)
  from Cons.prems(1) [OF _ Cons.prems(3,4)]
  obtain n1 T1 st1 where a: "remapType n1 pol T st = Some (T1, st1)" by fastforce
  from remapType_correct [OF Cons.prems(3) _ a] Cons.prems(2)
  have 1: "Inv ss0 pol Open st1" "MappedTypes st \<subseteq>\<^sub>m MappedTypes st1" by simp_all
  have k1: "card (unmapped ss0 st1) \<le> k"
    using unmapped_mono [OF 1(2), of ss0] Cons.prems(4) by simp
  have "\<exists>n r. remapEach (remapType n pol) Ts st1 = Some r"
    by (rule Cons.IH [OF _ _ 1(1) k1]) (use Cons.prems(1,2) in auto)
  then obtain n2 Ts1 st2 where b: "remapEach (remapType n2 pol) Ts st1 = Some (Ts1, st2)"
    by fastforce
  let ?n = "max n1 n2"
  have "remapType ?n pol T st = Some (T1, st1)"
    by (rule remapType_mono [OF a]) simp
  moreover have "remapEach (remapType ?n pol) Ts st1 = Some (Ts1, st2)"
    by (rule remapEach_mono [OF _ b]) (auto intro: remapType_mono)
  ultimately have "remapEach (remapType ?n pol) (T # Ts) st = Some (T1 # Ts1, st2)" by simp
  then show ?case by blast
qed

lemma terminates_step:
  assumes IHk: "\<And>T st Open. Inv ss0 pol Open st \<Longrightarrow> closedType (length ss0) T \<Longrightarrow>
                  card (unmapped ss0 st) < k \<Longrightarrow> \<exists>n r. remapType n pol T st = Some r"
  shows "Inv ss0 pol Open st \<Longrightarrow> closedType (length ss0) T \<Longrightarrow> card (unmapped ss0 st) \<le> k \<Longrightarrow>
           \<exists>n r. remapType n pol T st = Some r"
proof (induction T arbitrary: st Open)
  case (OtherType x)
  show ?case
  proof (cases "MappedTypes st (OtherType x)")
    case None
    then have "\<exists>r. remapType (Suc 0) pol (OtherType x) st = Some r"
      by (simp add: remapType.simps(2))
    then show ?thesis by blast
  next
    case (Some D)
    from remapType_mapped [OF Some, of 0 pol] show ?thesis by blast
  qed
next
  case (PointerType x)
  show ?case
  proof (cases "MappedTypes st (PointerType x)")
    case None
    then have "\<exists>r. remapType (Suc 0) pol (PointerType x) st = Some r"
      by (simp add: remapType.simps(2))
    then show ?thesis by blast
  next
    case (Some D)
    from remapType_mapped [OF Some, of 0 pol] show ?thesis by blast
  qed
next
  case (FunctionType r ps v)
  let ?T = "FunctionType r ps v"
  show ?case
  proof (cases "MappedTypes st ?T")
    case (Some D)
    from remapType_mapped [OF Some, of 0 pol] show ?thesis by blast
  next
    case None
    have clp: "\<forall>U \<in> set ps. closedType (length ss0) U" and clr: "closedType (length ss0) r"
      using FunctionType.prems(2) by (auto simp: closedType_def)
    have "\<exists>n r. remapEach (remapType n pol) ps st = Some r"
      by (rule each_terminates [OF _ clp FunctionType.prems(1,3)])
         (use FunctionType.IH(2) clp in blast)
    then obtain n1 ps' st1 where a: "remapEach (remapType n1 pol) ps st = Some (ps', st1)"
      by fastforce
    note 1 = remapTypes_correct [OF clp FunctionType.prems(1) a]
    have k1: "card (unmapped ss0 st1) \<le> k"
      using unmapped_mono [OF 1(2), of ss0] FunctionType.prems(3) by simp
    from FunctionType.IH(1) [OF 1(1) clr k1]
    obtain n2 r' st2 where b: "remapType n2 pol r st1 = Some (r', st2)" by fastforce
    let ?n = "max n1 n2"
    have "remapEach (remapType ?n pol) ps st = Some (ps', st1)"
      by (rule remapEach_mono [OF _ a]) (auto intro: remapType_mono)
    moreover have "remapType ?n pol r st1 = Some (r', st2)"
      by (rule remapType_mono [OF b]) simp
    ultimately have "remapType (Suc ?n) pol ?T st =
        Some (FunctionType r' ps' v, setMapped ?T (FunctionType r' ps' v) st2)"
      using None by (simp add: remapType_FunctionType)
    then show ?thesis by blast
  qed
next
  case (LiteralStruct es p)
  let ?T = "LiteralStruct es p"
  show ?case
  proof (cases "MappedTypes st ?T")
    case (Some D)
    from remapType_mapped [OF Some, of 0 pol] show ?thesis by blast
  next
    case None
    have cle: "\<forall>U \<in> set es. closedType (length ss0) U"
      using LiteralStruct.prems(2) by (auto simp: closedType_def)
    have "\<exists>n r. remapEach (remapType n pol) es st = Some r"
      by (rule each_terminates [OF _ cle LiteralStruct.prems(1,3)])
         (use LiteralStruct.IH cle in blast)
    then obtain n1 es' st1 where a: "remapEach (remapType n1 pol) es st = Some (es', st1)"
      by fastforce
    then have "remapType (Suc n1) pol ?T st =
        Some (LiteralStruct es' p, setMapped ?T (LiteralStruct es' p) st1)"
      using None by (simp add: remapType_LiteralStruct)
    then show ?thesis by blast
  qed
next
  case (IdentifiedStruct i)
  let ?T = "IdentifiedStruct i"
  show ?case
  proof (cases "MappedTypes st ?T")
    case (Some D)
    from remapType_mapped [OF Some, of 0 pol] show ?thesis by blast
  next
    case None
    have i: "i < length ss0" using IdentifiedStruct.prems(2) by (simp add: closedType_def)
    have un: "i \<notin> mappedIds st" using None by (simp add: mappedIds_def)
    note inv = IdentifiedStruct.prems(1)
    note gs = Inv_getStruct [OF inv i]
    show ?thesis
    proof (cases "struct_body (ss0 ! i)")
      case nb: None
      have "remapType (Suc 0) pol ?T st = Some (?T, setMapped ?T ?T st)"
        by (rule remapType_opaque [OF None gs(1)]) (use gs(2) nb in simp)
      then show ?thesis by blast
    next
      case (Some Els)
      let ?d = "length (structs st)"
      from Inv_placeholder [OF inv i un Some]
      obtain st1 where
        ph: "placeholder i (structs st ! i) st = (?d, st1)" and
        inv1: "Inv ss0 pol (insert i Open) st1" and
        mu1: "MappedTypes st1 = (MappedTypes st)(IdentifiedStruct i \<mapsto> IdentifiedStruct ?d)"
        by blast
      have b: "struct_body (structs st ! i) = Some Els" using gs(2) Some by simp
      have cle: "\<forall>U \<in> set Els. closedType (length ss0) U"
        using closed_body [OF _ i Some] inv by (simp add: Inv_def)
      have less: "card (unmapped ss0 st1) < k"
        using unmapped_placeholder [OF mu1 i un] IdentifiedStruct.prems(3) by simp
      have "\<exists>n r. remapEach (remapType n pol) Els st1 = Some r"
      proof (rule each_terminates [OF _ cle inv1 order_refl])
        fix U st'
        assume "U \<in> set Els" "Inv ss0 pol (insert i Open) st'"
          "card (unmapped ss0 st') \<le> card (unmapped ss0 st1)"
        then show "\<exists>n r. remapType n pol U st' = Some r"
          using IHk [of "insert i Open" st' U] cle less by auto
      qed
      then obtain n1 New st2 where a: "remapEach (remapType n1 pol) Els st1 = Some (New, st2)"
        by fastforce
      have "remapType (Suc n1) pol ?T st =
          Some (IdentifiedStruct ?d, setMapped ?T (IdentifiedStruct ?d)
                  (setBody ?d New (struct_packed (structs st ! i)) st2))"
        using remapType_IdentifiedStruct [OF None gs(1) b ph] a by simp
      then show ?thesis by blast
    qed
  qed
next
  case (ArrayType e x)
  let ?T = "ArrayType e x"
  show ?case
  proof (cases "MappedTypes st ?T")
    case (Some D)
    from remapType_mapped [OF Some, of 0 pol] show ?thesis by blast
  next
    case None
    have cle: "closedType (length ss0) e" using ArrayType.prems(2) by (simp add: closedType_def)
    from ArrayType.IH [OF ArrayType.prems(1) cle ArrayType.prems(3)]
    obtain n1 e' st1 where a: "remapType n1 pol e st = Some (e', st1)" by fastforce
    then have "remapType (Suc n1) pol ?T st =
        Some (ArrayType e' x, setMapped ?T (ArrayType e' x) st1)"
      using None by (simp add: remapType_ArrayType)
    then show ?thesis by blast
  qed
next
  case (VectorType e x y)
  let ?T = "VectorType e x y"
  show ?case
  proof (cases "MappedTypes st ?T")
    case (Some D)
    from remapType_mapped [OF Some, of 0 pol] show ?thesis by blast
  next
    case None
    have cle: "closedType (length ss0) e" using VectorType.prems(2) by (simp add: closedType_def)
    from VectorType.IH [OF VectorType.prems(1) cle VectorType.prems(3)]
    obtain n1 e' st1 where a: "remapType n1 pol e st = Some (e', st1)" by fastforce
    then have "remapType (Suc n1) pol ?T st =
        Some (VectorType e' x y, setMapped ?T (VectorType e' x y) st1)"
      using None by (simp add: remapType_VectorType)
    then show ?thesis by blast
  qed
qed

lemma remapType_terminates_aux:
  "Inv ss0 pol Open st \<Longrightarrow> closedType (length ss0) T \<Longrightarrow> card (unmapped ss0 st) \<le> k \<Longrightarrow>
     \<exists>n r. remapType n pol T st = Some r"
proof (induction k arbitrary: T st Open rule: less_induct)
  case (less k)
  show ?case
  proof (rule terminates_step [OF _ less.prems])
    fix T' st' Open'
    assume "Inv ss0 pol Open' st'" "closedType (length ss0) T'" "card (unmapped ss0 st') < k"
    then show "\<exists>n r. remapType n pol T' st' = Some r"
      using less.IH [of "card (unmapped ss0 st')" Open' st' T'] by simp
  qed
qed

lemma remapType_terminates:
  assumes "Inv ss0 pol Open st" "closedType (length ss0) T"
  shows "\<exists>n T' st'. \<forall>m\<ge>n. remapType m pol T st = Some (T', st')"
proof -
  from remapType_terminates_aux [OF assms order_refl]
  obtain n T' st' where "remapType n pol T st = Some (T', st')" by fastforce
  then have "\<forall>m\<ge>n. remapType m pol T st = Some (T', st')"
    by (auto intro: remapType_mono)
  then show ?thesis by blast
qed

lemma Inv_fresh:
  assumes "wellFormedContext ss0"
  shows "Inv ss0 pol {} \<lparr>structs = ss0, NamedStructTypesUniqueID = u, MappedTypes = Map.empty\<rparr>"
  using assms
  by (simp add: Inv_def wellFormedContext_def inv_frame_def inv_memo_def inv_dest_def
      inv_onto_def mappedIds_def)

lemma reachable_Inv:
  assumes "wellFormedContext ss0" "reachable ss0 pol st"
  shows "Inv ss0 pol {} st"
  using assms(2)
proof (induction rule: reachable.induct)
  case (fresh u)
  show ?case by (rule Inv_fresh [OF assms(1)])
next
  case (rewritten st T n T' st')
  then show ?case using remapType_correct by blast
qed

lemma reachable_freshRemapper: "reachable ss pol (freshRemapper ss u)"
  unfolding freshRemapper_def by (rule reachable.fresh)

lemma remapType_total:
  assumes wf: "wellFormedContext ss0" and r: "reachable ss0 pol st"
    and cl: "closedType (length ss0) T"
  shows "\<exists>n T' st'. (\<forall>m\<ge>n. remapType m pol T st = Some (T', st')) \<and>
           Inv ss0 pol {} st' \<and> MappedTypes st' T = Some T'"
proof -
  have inv: "Inv ss0 pol {} st" using reachable_Inv [OF wf r] .
  from remapType_terminates [OF inv cl]
  obtain n T' st' where run: "\<forall>m\<ge>n. remapType m pol T st = Some (T', st')" by blast
  then have "remapType n pol T st = Some (T', st')" by simp
  from remapType_correct [OF inv cl this] run show ?thesis by blast
qed

text \<open>What was rewritten is well formed again.\<close>

lemma structMap_closed:
  assumes inv: "Inv ss0 pol {} st" and m: "m \<in> mappedIds st"
  shows "closedType (length (structs st)) (structMap st m)"
proof -
  have me: "inv_memo ss0 pol st" and de: "inv_dest ss0 pol {} st" and fr: "inv_frame ss0 st"
    using inv by (simp_all add: Inv_def)
  have "m < length (structs st)"
    using mappedIds_closed [OF me m] fr by (simp add: inv_frame_def)
  then show ?thesis using destOk_cases [OF de m] by (auto simp: closedType_def)
qed

lemma subst_closed:
  assumes inv: "Inv ss0 pol {} st" and ids: "structIds T \<subseteq> mappedIds st"
  shows "closedType (length (structs st)) (substType (structMap st) pol T)"
  unfolding closedType_def structIds_substType
  using structMap_closed [OF inv] ids by (auto simp: closedType_def)

lemma mapped_closed:
  assumes inv: "Inv ss0 pol {} st" and m: "MappedTypes st T = Some T'"
  shows "closedType (length (structs st)) T'"
  using mapped_subst [OF inv m] subst_closed [OF inv] by simp

lemma Inv_wellFormed:
  assumes inv: "Inv ss0 pol {} st"
  shows "wellFormedContext (structs st)"
proof -
  let ?ss = "structs st"
  let ?N = "length ss0"
  have fr: "inv_frame ss0 st" and me: "inv_memo ss0 pol st" and de: "inv_dest ss0 pol {} st"
    and on: "inv_onto ss0 st" and dn: "distinctNames ?ss" and cs: "closedStructs ss0"
    using inv by (simp_all add: Inv_def)
  have N: "?N \<le> length ?ss" using fr by (simp add: inv_frame_def)
  have "closedStructs ?ss"
    unfolding closedStructs_def
  proof (intro ballI)
    fix S T assume S: "S \<in> set ?ss" and T: "T \<in> set (bodyTypes S)"
    from S obtain j where j: "j < length ?ss" "S = ?ss ! j" by (auto simp: in_set_conv_nth)
    from T obtain Els where Els: "struct_body S = Some Els" "T \<in> set Els"
      by (cases "struct_body S") (auto simp: bodyTypes_def)
    show "closedType (length ?ss) T"
    proof (cases "j < ?N")
      case True
      then have "struct_body (ss0 ! j) = Some Els" using fr j Els by (simp add: inv_frame_def)
      then have "closedType ?N T" using closed_body [OF cs True] Els(2) by blast
      then show ?thesis using N by (rule closedType_mono)
    next
      case False
      then have "length ss0 \<le> j \<and> j < length ?ss" using j(1) by simp
      then have "\<exists>i \<in> mappedIds st. structMap st i = IdentifiedStruct j"
        using on unfolding inv_onto_def by blast
      then obtain i where i: "i \<in> mappedIds st" "structMap st i = IdentifiedStruct j"
        by blast
      have iN: "i < ?N" using mappedIds_closed [OF me i(1)] .
      have di: "destOk ss0 pol {} st i" using de i(1) by (simp add: inv_dest_def)
      show ?thesis
      proof (cases "struct_body (ss0 ! i)")
        case None
        then show ?thesis using di i(2) iN False by (simp add: destOk_def)
      next
        case (Some Els0)
        then have b: "struct_body (?ss ! j) = Some (map (substType (structMap st) pol) Els0)"
          "\<forall>U \<in> set Els0. structIds U \<subseteq> mappedIds st"
          using di i(2) by (auto simp: destOk_def)
        then obtain U where "U \<in> set Els0" "T = substType (structMap st) pol U"
          using Els j(2) by auto
        then show ?thesis using subst_closed [OF inv] b(2) by blast
      qed
    qed
  qed
  then show ?thesis using dn by (simp add: wellFormedContext_def)
qed

text \<open>The shape of a rewritten type is the shape of its source with the policy applied to
  every pointer.\<close>

lemma mapSpaces_id: "(\<And>a. a \<in> spacesOf X \<Longrightarrow> pol a = a) \<Longrightarrow> mapSpaces pol X = X"
proof (induction X)
  case (SIdentified nm b p)
  show ?case
  proof (cases b)
    case None
    then show ?thesis by simp
  next
    case (Some es)
    have "map (mapSpaces pol) es = es"
      by (rule map_idI) (use SIdentified Some in auto)
    then show ?thesis using Some by simp
  qed
qed (auto intro: map_idI)

lemma mapSpaces_idem:
  "(\<And>a. pol (pol a) = pol a) \<Longrightarrow> mapSpaces pol (mapSpaces pol X) = mapSpaces pol X"
proof (induction X)
  case (SIdentified nm b p)
  show ?case
  proof (cases b)
    case None
    then show ?thesis by simp
  next
    case (Some es)
    have "map (\<lambda>x. mapSpaces pol (mapSpaces pol x)) es = map (mapSpaces pol) es"
      by (rule map_cong [OF refl]) (use SIdentified Some in auto)
    then show ?thesis using Some by (simp add: comp_def)
  qed
qed (simp_all add: comp_def)

lemma shape_subst_aux:
  assumes ids: "\<And>i. i \<in> structIds T \<Longrightarrow> shapeWith g (\<sigma> i) = mapSpaces pol (f i)"
  shows "shapeWith g (substType \<sigma> pol T) = mapSpaces pol (shapeWith f T)"
  using ids by (induction T) auto

lemma unfold_correspondence:
  assumes inv: "Inv ss0 pol {} st"
  shows "i \<in> mappedIds st \<Longrightarrow>
     shapeWith (unfoldStruct k (structs st)) (structMap st i) = mapSpaces pol (unfoldStruct k ss0 i)"
proof (induction k arbitrary: i)
  case 0
  have de: "inv_dest ss0 pol {} st" using inv by (simp add: Inv_def)
  from destOk_cases [OF de 0] show ?case by auto
next
  case (Suc k)
  let ?ss = "structs st"
  have fr: "inv_frame ss0 st" and me: "inv_memo ss0 pol st" and de: "inv_dest ss0 pol {} st"
    using inv by (simp_all add: Inv_def)
  have i: "i < length ss0" using mappedIds_closed [OF me Suc.prems] .
  have il: "i < length ?ss" using i fr by (simp add: inv_frame_def)
  have di: "destOk ss0 pol {} st i" using de Suc.prems by (simp add: inv_dest_def)
  show ?case
  proof (cases "struct_body (ss0 ! i)")
    case None
    then have "structMap st i = IdentifiedStruct i" using di by (simp add: destOk_def)
    moreover have "struct_body (?ss ! i) = None" "struct_packed (?ss ! i) = struct_packed (ss0 ! i)"
      "struct_name (?ss ! i) = struct_name (ss0 ! i)"
      using fr i None by (simp_all add: inv_frame_def)
    ultimately show ?thesis using i il None by simp
  next
    case (Some Els)
    then obtain d where d: "structMap st i = IdentifiedStruct d" "d < length ?ss"
      "struct_name (?ss ! d) = struct_name (ss0 ! i)"
      "struct_body (?ss ! d) = Some (map (substType (structMap st) pol) Els)"
      "struct_packed (?ss ! d) = struct_packed (ss0 ! i)"
      "\<forall>T \<in> set Els. structIds T \<subseteq> mappedIds st"
      using di by (auto simp: destOk_def)
    have "\<And>U. U \<in> set Els \<Longrightarrow>
        shapeWith (unfoldStruct k ?ss) (substType (structMap st) pol U)
          = mapSpaces pol (shapeWith (unfoldStruct k ss0) U)"
      by (rule shape_subst_aux) (use d(6) Suc.IH in blast)
    then have "map (shapeWith (unfoldStruct k ?ss)) (map (substType (structMap st) pol) Els)
        = map (mapSpaces pol) (map (shapeWith (unfoldStruct k ss0)) Els)"
      by simp
    then show ?thesis using d i Some by simp
  qed
qed

lemma shape_rewritten:
  assumes inv: "Inv ss0 pol {} st" and m: "MappedTypes st T = Some T'"
  shows "shape k (structs st) T' = mapSpaces pol (shape k ss0 T)"
proof -
  from mapped_subst [OF inv m]
  have T': "T' = substType (structMap st) pol T" and ids: "structIds T \<subseteq> mappedIds st"
    by simp_all
  show ?thesis
    unfolding shape_def T'
    by (rule shape_subst_aux) (use ids unfold_correspondence [OF inv] in blast)
qed

text \<open>The memo never holds a wrong entry for a pointer type.\<close>

lemma pointersMapped_setMapped:
  assumes "pointersMapped pol st" "\<And>a. T = PointerType a \<Longrightarrow> D = PointerType (pol a)"
  shows "pointersMapped pol (setMapped T D st)"
  using assms by (auto simp: pointersMapped_def setMapped_def)

lemma remapType_pointersMapped:
  "pointersMapped pol st \<Longrightarrow> remapType n pol T st = Some (T', st') \<Longrightarrow> pointersMapped pol st'"
proof (induction n arbitrary: T st T' st')
  case 0
  then show ?case by simp
next
  case (Suc n)
  note pm = Suc.prems(1) and run = Suc.prems(2)
  have each: "\<And>Ts st Ts' st'. pointersMapped pol st \<Longrightarrow>
      remapEach (remapType n pol) Ts st = Some (Ts', st') \<Longrightarrow> pointersMapped pol st'"
  proof -
    fix Ts st Ts' st'
    assume p: "pointersMapped pol st" and r: "remapEach (remapType n pol) Ts st = Some (Ts', st')"
    show "pointersMapped pol st'"
      by (rule remapEach_preserves [where P = "pointersMapped pol", OF _ p r]) (rule Suc.IH)
  qed
  show ?case
  proof (cases "MappedTypes st T")
    case (Some D)
    then show ?thesis using run pm by (simp add: remapType_mapped)
  next
    case None
    have fin: "\<And>D st2. pointersMapped pol st2 \<Longrightarrow> (\<And>a. T \<noteq> PointerType a) \<Longrightarrow>
        pointersMapped pol (setMapped T D st2)"
      by (rule pointersMapped_setMapped) auto
    show ?thesis
    proof (cases T)
      case (OtherType k)
      have "remapType (Suc n) pol T st = Some (T, setMapped T T st)"
        using None OtherType by (simp add: remapType.simps(2))
      with run have "st' = setMapped T T st" by auto
      then show ?thesis using fin [OF pm] OtherType by simp
    next
      case (PointerType a)
      have "remapType (Suc n) pol T st =
              Some (PointerType (pol a), setMapped T (PointerType (pol a)) st)"
        using None PointerType by (simp add: remapType.simps(2))
      with run have "st' = setMapped T (PointerType (pol a)) st" by auto
      then show ?thesis using pointersMapped_setMapped [OF pm, of T "PointerType (pol a)"] PointerType
        by simp
    next
      case (FunctionType r ps v)
      from run None obtain ps' st1 r' st2 where
        a: "remapEach (remapType n pol) ps st = Some (ps', st1)" and
        b: "remapType n pol r st1 = Some (r', st2)" and
        c: "st' = setMapped T T' st2"
        unfolding FunctionType by (auto simp: remapType_FunctionType)
      have "pointersMapped pol st1" using each [OF pm a] .
      then have "pointersMapped pol st2" using Suc.IH b by blast
      then show ?thesis unfolding c by (rule fin) (simp add: FunctionType)
    next
      case (LiteralStruct es p)
      from run None obtain es' st1 where
        a: "remapEach (remapType n pol) es st = Some (es', st1)" and
        c: "st' = setMapped T T' st1"
        unfolding LiteralStruct by (auto simp: remapType_LiteralStruct)
      have "pointersMapped pol st1" using each [OF pm a] .
      then show ?thesis unfolding c by (rule fin) (simp add: LiteralStruct)
    next
      case (ArrayType e k)
      from run None obtain e' st1 where
        a: "remapType n pol e st = Some (e', st1)" and
        c: "st' = setMapped T T' st1"
        unfolding ArrayType by (auto simp: remapType_ArrayType)
      have "pointersMapped pol st1" using Suc.IH [OF pm a] .
      then show ?thesis unfolding c by (rule fin) (simp add: ArrayType)
    next
      case (VectorType e k s)
      from run None obtain e' st1 where
        a: "remapType n pol e st = Some (e', st1)" and
        c: "st' = setMapped T T' st1"
        unfolding VectorType by (auto simp: remapType_VectorType)
      have "pointersMapped pol st1" using Suc.IH [OF pm a] .
      then show ?thesis unfolding c by (rule fin) (simp add: VectorType)
    next
      case (IdentifiedStruct i)
      show ?thesis
      proof (cases "getStruct st i")
        case gn: None
        have "remapType (Suc n) pol T st = Some (T, setMapped T T st)"
          using None IdentifiedStruct gn by (simp add: remapType.simps(2))
        with run have "st' = setMapped T T st" by auto
        then show ?thesis using fin [OF pm] IdentifiedStruct by simp
      next
        case (Some Ty)
        show ?thesis
        proof (cases "struct_body Ty")
          case bn: None
          have m: "MappedTypes st (IdentifiedStruct i) = None" using None IdentifiedStruct by simp
          have "st' = setMapped T T st"
            using run remapType_opaque [OF m Some bn, of n pol] IdentifiedStruct by auto
          then show ?thesis using fin [OF pm] IdentifiedStruct by simp
        next
          case body: (Some Els)
          obtain d st1 where ph: "placeholder i Ty st = (d, st1)" by (cases "placeholder i Ty st")
          have m: "MappedTypes st (IdentifiedStruct i) = None" using None IdentifiedStruct by simp
          from run obtain New st2 where
            a: "remapEach (remapType n pol) Els st1 = Some (New, st2)" and
            c: "st' = setMapped (IdentifiedStruct i) (IdentifiedStruct d)
                  (setBody d New (struct_packed Ty) st2)"
            unfolding IdentifiedStruct
            by (auto simp: remapType_IdentifiedStruct [OF m Some body ph])
          have "pointersMapped pol st1"
            using pm MappedTypes_placeholder [OF ph] by (simp add: pointersMapped_def)
          then have "pointersMapped pol st2" using each a by blast
          then have "pointersMapped pol (setBody d New (struct_packed Ty) st2)"
            by (simp add: pointersMapped_def setBody_def)
          then show ?thesis unfolding c by (rule pointersMapped_setMapped) simp
        qed
      qed
    qed
  qed
qed

lemma reachable_pointersMapped: "reachable ss0 pol st \<Longrightarrow> pointersMapped pol st"
proof (induction rule: reachable.induct)
  case (fresh u)
  show ?case by (simp add: pointersMapped_def)
next
  case (rewritten st T n T' st')
  then show ?case using remapType_pointersMapped by blast
qed

lemma wf_list_context: "wellFormedContext list_context"
  by (simp add: wellFormedContext_def closedStructs_def bodyTypes_def closedType_def
      distinctNames_def list_context_def)

lemma wf_pair_context: "wellFormedContext pair_context"
  by (simp add: wellFormedContext_def closedStructs_def bodyTypes_def closedType_def
      distinctNames_def pair_context_def)

lemma pointerFree_pair_user: "pointerFree pair_context pair_user"
  unfolding pointerFree_def
proof
  fix k
  show "spacesOf (shape k pair_context pair_user) = {}"
    by (cases k) (simp_all add: shape_def pair_user_def pair_context_def)
qed

lemma list_context_run:
  "\<exists>st'. remapType 2 (removeAllAddrspaces 0) (IdentifiedStruct 0) (freshRemapper list_context 0)
       = Some (IdentifiedStruct 1, st') \<and>
     structs st' =
       [\<lparr>struct_name = ''list.bad'', struct_body = Some [OtherType 64, PointerType 10],
         struct_packed = False\<rparr>,
        \<lparr>struct_name = ''list'', struct_body = Some [OtherType 64, PointerType 0],
         struct_packed = False\<rparr>]"
  by (simp add: numeral_2_eq_2 remapType.simps(2) freshRemapper_def list_context_def
      getStruct_def placeholder_def createStruct_def setName_def takenNames_def renameStruct_def
      setMapped_def setBody_def removeAllAddrspaces_def Let_def)

section \<open>Properties of the type rewriter\<close>

text \<open>
  C1: for every identified struct with a body (a named one that holds a pointer to itself
  among them), in every state of a run on a well-formed context, the rewrite returns once
  the fuel suffices, with a new struct that the memo now holds for the source. The new
  struct carries the source's name and packed flag, and its body is the source's body
  rewritten: each pointer element has its address space sent through the policy, and each
  element that is the source struct itself is the new struct. On the first visit the
  placeholder step has put the new struct, still without a body, into the memo before
  the elements are rewritten.
\<close>

theorem remapType_identified_struct:
  assumes wf: "wellFormedContext ss0" and r: "reachable ss0 pol st"
    and i: "i < length ss0" and body: "struct_body (ss0 ! i) = Some Els"
  shows "\<exists>n d st'.
           (\<forall>m\<ge>n. remapType m pol (IdentifiedStruct i) st = Some (IdentifiedStruct d, st')) \<and>
           length ss0 \<le> d \<and> d < length (structs st') \<and>
           MappedTypes st' (IdentifiedStruct i) = Some (IdentifiedStruct d) \<and>
           struct_name (structs st' ! d) = struct_name (ss0 ! i) \<and>
           struct_packed (structs st' ! d) = struct_packed (ss0 ! i) \<and>
           struct_body (structs st' ! d) = Some (map (substType (structMap st') pol) Els) \<and>
           (\<forall>a. PointerType a \<in> set Els \<longrightarrow>
                PointerType (pol a) \<in> set (map (substType (structMap st') pol) Els)) \<and>
           (IdentifiedStruct i \<in> set Els \<longrightarrow>
                IdentifiedStruct d \<in> set (map (substType (structMap st') pol) Els)) \<and>
           (MappedTypes st (IdentifiedStruct i) = None \<longrightarrow>
              (\<exists>st1. placeholder i (structs st ! i) st = (d, st1) \<and>
                 MappedTypes st1 (IdentifiedStruct i) = Some (IdentifiedStruct d) \<and>
                 struct_body (structs st1 ! d) = None))"
proof -
  let ?T = "IdentifiedStruct i"
  have cl: "closedType (length ss0) ?T" using i by (simp add: closedType_def)
  have inv0: "Inv ss0 pol {} st" using reachable_Inv [OF wf r] .
  from remapType_total [OF wf r cl]
  obtain n T' st' where run: "\<forall>m\<ge>n. remapType m pol ?T st = Some (T', st')"
    and inv: "Inv ss0 pol {} st'" and m: "MappedTypes st' ?T = Some T'" by blast
  have im: "i \<in> mappedIds st'" using m by (simp add: mappedIds_def)
  have "destOk ss0 pol {} st' i" using inv im by (simp add: Inv_def inv_dest_def)
  then obtain d where d: "structMap st' i = IdentifiedStruct d" "length ss0 \<le> d"
    "d < length (structs st')" "struct_name (structs st' ! d) = struct_name (ss0 ! i)"
    "struct_body (structs st' ! d) = Some (map (substType (structMap st') pol) Els)"
    "struct_packed (structs st' ! d) = struct_packed (ss0 ! i)"
    using body by (auto simp: destOk_def)
  have T': "T' = IdentifiedStruct d" using m d(1) by (simp add: structMap_def)
  have img: "\<And>U. U \<in> set Els \<Longrightarrow>
      substType (structMap st') pol U \<in> set (map (substType (structMap st') pol) Els)"
    by simp
  have ptr: "\<forall>a. PointerType a \<in> set Els \<longrightarrow>
                PointerType (pol a) \<in> set (map (substType (structMap st') pol) Els)"
  proof (intro allI impI)
    fix a assume "PointerType a \<in> set Els"
    from img [OF this]
    show "PointerType (pol a) \<in> set (map (substType (structMap st') pol) Els)" by simp
  qed
  have self: "IdentifiedStruct i \<in> set Els \<longrightarrow>
                IdentifiedStruct d \<in> set (map (substType (structMap st') pol) Els)"
  proof
    assume "IdentifiedStruct i \<in> set Els"
    from img [OF this]
    show "IdentifiedStruct d \<in> set (map (substType (structMap st') pol) Els)"
      using d(1) by simp
  qed
  have ph: "MappedTypes st ?T = None \<longrightarrow>
              (\<exists>st1. placeholder i (structs st ! i) st = (d, st1) \<and>
                 MappedTypes st1 ?T = Some (IdentifiedStruct d) \<and>
                 struct_body (structs st1 ! d) = None)"
  proof
    assume un: "MappedTypes st ?T = None"
    then have un': "i \<notin> mappedIds st" by (simp add: mappedIds_def)
    from Inv_placeholder [OF inv0 i un' body]
    obtain st1 where
      p: "placeholder i (structs st ! i) st = (length (structs st), st1)" and
      inv1: "Inv ss0 pol (insert i {}) st1" and
      mu1: "MappedTypes st1 = (MappedTypes st)(?T \<mapsto> IdentifiedStruct (length (structs st)))"
      by blast
    note gs = Inv_getStruct [OF inv0 i]
    have b: "struct_body (structs st ! i) = Some Els" using gs(2) body by simp
    have "remapType (Suc n) pol ?T st = Some (T', st')" using run by simp
    then have "T' = IdentifiedStruct (length (structs st))"
      using remapType_IdentifiedStruct [OF un gs(1) b p, of n pol T' st'] by auto
    then have dd: "d = length (structs st)" using T' by simp
    have i1: "i \<in> mappedIds st1" by (simp add: mappedIds_def mu1)
    have "destOk ss0 pol (insert i {}) st1 i" using inv1 i1 by (simp add: Inv_def inv_dest_def)
    then have "struct_body (structs st1 ! d) = None"
      using body dd mu1 by (auto simp: destOk_def structMap_def)
    then show "\<exists>st1. placeholder i (structs st ! i) st = (d, st1) \<and>
                 MappedTypes st1 ?T = Some (IdentifiedStruct d) \<and>
                 struct_body (structs st1 ! d) = None"
      using p mu1 dd by auto
  qed
  have run': "\<forall>m\<ge>n. remapType m pol ?T st = Some (IdentifiedStruct d, st')"
    using run T' by simp
  have m': "MappedTypes st' ?T = Some (IdentifiedStruct d)" using m T' by simp
  show ?thesis
    by (intro exI [of _ n] exI [of _ d] exI [of _ st'] conjI)
       (rule run' d(2) d(3) m' d(4) d(6) d(5) ptr self ph)+
qed

theorem remapType_identified_struct_witness:
  "wellFormedContext list_context \<and>
   reachable list_context (removeAllAddrspaces 0) (freshRemapper list_context 0) \<and>
   0 < length list_context \<and>
   struct_body (list_context ! 0) = Some [OtherType 64, PointerType 10] \<and>
   (\<exists>n d st'.
      (\<forall>m\<ge>n. remapType m (removeAllAddrspaces 0) (IdentifiedStruct 0) (freshRemapper list_context 0)
          = Some (IdentifiedStruct d, st')) \<and>
      length list_context \<le> d \<and> d < length (structs st') \<and>
      MappedTypes st' (IdentifiedStruct 0) = Some (IdentifiedStruct d) \<and>
      struct_name (structs st' ! d) = struct_name (list_context ! 0) \<and>
      struct_packed (structs st' ! d) = struct_packed (list_context ! 0) \<and>
      struct_body (structs st' ! d) =
        Some (map (substType (structMap st') (removeAllAddrspaces 0)) [OtherType 64, PointerType 10]) \<and>
      (\<forall>a. PointerType a \<in> set [OtherType 64, PointerType 10] \<longrightarrow>
           PointerType (removeAllAddrspaces 0 a)
             \<in> set (map (substType (structMap st') (removeAllAddrspaces 0))
                      [OtherType 64, PointerType 10])) \<and>
      (IdentifiedStruct 0 \<in> set [OtherType 64, PointerType 10] \<longrightarrow>
           IdentifiedStruct d
             \<in> set (map (substType (structMap st') (removeAllAddrspaces 0))
                      [OtherType 64, PointerType 10])) \<and>
      (MappedTypes (freshRemapper list_context 0) (IdentifiedStruct 0) = None \<longrightarrow>
         (\<exists>st1. placeholder 0 (structs (freshRemapper list_context 0) ! 0) (freshRemapper list_context 0)
                  = (d, st1) \<and>
            MappedTypes st1 (IdentifiedStruct 0) = Some (IdentifiedStruct d) \<and>
            struct_body (structs st1 ! d) = None)))"
proof -
  have i: "0 < length list_context" by (simp add: list_context_def)
  have b: "struct_body (list_context ! 0) = Some [OtherType 64, PointerType 10]"
    by (simp add: list_context_def)
  show ?thesis
    using wf_list_context reachable_freshRemapper i b
      remapType_identified_struct [OF wf_list_context reachable_freshRemapper i b]
    by blast
qed

text \<open>
  C2: in every state of a run, the rewrite of a pointer type with address space \<open>a\<close> is
  the pointer type with address space \<open>pol a\<close>; a pointer type has no other attribute.
\<close>

theorem remapType_pointer:
  assumes "reachable ss0 pol st"
  shows "\<exists>st'. remapType (Suc n) pol (PointerType a) st = Some (PointerType (pol a), st')"
proof (cases "MappedTypes st (PointerType a)")
  case None
  then show ?thesis by (simp add: remapType.simps(2))
next
  case (Some D)
  then have "D = PointerType (pol a)"
    using reachable_pointersMapped [OF assms] by (simp add: pointersMapped_def)
  then show ?thesis using Some by (simp add: remapType_mapped)
qed

theorem remapType_pointer_witness:
  "reachable list_context (removeJuliaAddrspaces 0 1 3) (freshRemapper list_context 0) \<and>
   (\<exists>st'. remapType (Suc 0) (removeJuliaAddrspaces 0 1 3) (PointerType 2)
             (freshRemapper list_context 0) = Some (PointerType 0, st')) \<and>
   (\<exists>st'. remapType (Suc 0) (removeJuliaAddrspaces 0 1 3) (PointerType 7)
             (freshRemapper list_context 0) = Some (PointerType 7, st'))"
  using reachable_freshRemapper [of list_context "removeJuliaAddrspaces 0 1 3"]
    remapType_pointer [OF reachable_freshRemapper [of list_context "removeJuliaAddrspaces 0 1 3"],
      of 0 2]
    remapType_pointer [OF reachable_freshRemapper [of list_context "removeJuliaAddrspaces 0 1 3"],
      of 0 7]
  by (simp add: removeJuliaAddrspaces_def)

text \<open>
  C5: for every type of a well-formed context that is pointer free, in every state of a
  run, the rewrite returns a type structurally equal to the source as it stood before the
  run (an identified struct with a body is rewritten to a new struct of the same name,
  body and packed flag).
\<close>

theorem remapType_pointer_free:
  assumes wf: "wellFormedContext ss0" and r: "reachable ss0 pol st"
    and cl: "closedType (length ss0) T" and pf: "pointerFree ss0 T"
  shows "\<exists>n T' st'. (\<forall>m\<ge>n. remapType m pol T st = Some (T', st')) \<and>
           structurallyEqual ss0 T (structs st') T'"
proof -
  from remapType_total [OF wf r cl]
  obtain n T' st' where run: "\<forall>m\<ge>n. remapType m pol T st = Some (T', st')"
    and inv: "Inv ss0 pol {} st'" and m: "MappedTypes st' T = Some T'" by blast
  have "structurallyEqual ss0 T (structs st') T'"
    unfolding structurallyEqual_def
  proof
    fix k
    have "shape k (structs st') T' = mapSpaces pol (shape k ss0 T)"
      by (rule shape_rewritten [OF inv m])
    also have "\<dots> = shape k ss0 T"
      by (rule mapSpaces_id) (use pf in \<open>auto simp: pointerFree_def\<close>)
    finally show "shape k ss0 T = shape k (structs st') T'" by simp
  qed
  then show ?thesis using run by blast
qed

theorem remapType_pointer_free_witness:
  "wellFormedContext pair_context \<and>
   reachable pair_context (removeAllAddrspaces 0) (freshRemapper pair_context 0) \<and>
   closedType (length pair_context) pair_user \<and>
   pointerFree pair_context pair_user \<and>
   (\<exists>n T' st'. (\<forall>m\<ge>n. remapType m (removeAllAddrspaces 0) pair_user (freshRemapper pair_context 0)
                     = Some (T', st')) \<and>
           structurallyEqual pair_context pair_user (structs st') T')"
proof -
  have c: "closedType (length pair_context) pair_user"
    by (simp add: closedType_def pair_user_def pair_context_def)
  show ?thesis
    using wf_pair_context reachable_freshRemapper c pointerFree_pair_user
      remapType_pointer_free [OF wf_pair_context reachable_freshRemapper c pointerFree_pair_user]
    by blast
qed

text \<open>
  C6: under the collapse-all policy, rewriting the result of a rewrite again, by the
  remapper of a second run over the context the first run left, returns a type
  structurally equal to that result.
\<close>

theorem collapse_all_idempotent:
  assumes wf: "wellFormedContext ss0"
    and r1: "reachable ss0 (removeAllAddrspaces Generic) st"
    and cl: "closedType (length ss0) T"
    and run1: "remapType n (removeAllAddrspaces Generic) T st = Some (T', st')"
    and r2: "reachable (structs st') (removeAllAddrspaces Generic) st2"
  shows "\<exists>m T'' st2'. (\<forall>j\<ge>m. remapType j (removeAllAddrspaces Generic) T' st2 = Some (T'', st2')) \<and>
           structurallyEqual (structs st') T' (structs st2') T''"
proof -
  let ?pol = "removeAllAddrspaces Generic"
  have idem: "\<And>a. ?pol (?pol a) = ?pol a" by (simp add: removeAllAddrspaces_def)
  have inv: "Inv ss0 ?pol {} st" using reachable_Inv [OF wf r1] .
  from remapType_correct [OF inv cl run1]
  have inv1: "Inv ss0 ?pol {} st'" and m1: "MappedTypes st' T = Some T'" by simp_all
  have wf1: "wellFormedContext (structs st')" using Inv_wellFormed [OF inv1] .
  have cl1: "closedType (length (structs st')) T'" using mapped_closed [OF inv1 m1] .
  from remapType_total [OF wf1 r2 cl1]
  obtain m T'' st2' where run2: "\<forall>j\<ge>m. remapType j ?pol T' st2 = Some (T'', st2')"
    and inv2: "Inv (structs st') ?pol {} st2'" and m2: "MappedTypes st2' T' = Some T''" by blast
  have "structurallyEqual (structs st') T' (structs st2') T''"
    unfolding structurallyEqual_def
  proof
    fix k
    have 1: "shape k (structs st') T' = mapSpaces ?pol (shape k ss0 T)"
      by (rule shape_rewritten [OF inv1 m1])
    have "shape k (structs st2') T'' = mapSpaces ?pol (shape k (structs st') T')"
      by (rule shape_rewritten [OF inv2 m2])
    also have "\<dots> = shape k (structs st') T'"
      unfolding 1 using mapSpaces_idem [of ?pol "shape k ss0 T"] idem by simp
    finally show "shape k (structs st') T' = shape k (structs st2') T''" by simp
  qed
  then show ?thesis using run2 by blast
qed

theorem collapse_all_idempotent_witness:
  "wellFormedContext list_context \<and>
   reachable list_context (removeAllAddrspaces 0) (freshRemapper list_context 0) \<and>
   closedType (length list_context) (IdentifiedStruct 0) \<and>
   (\<exists>T' st'.
      remapType 2 (removeAllAddrspaces 0) (IdentifiedStruct 0) (freshRemapper list_context 0)
        = Some (T', st') \<and>
      reachable (structs st') (removeAllAddrspaces 0) (freshRemapper (structs st') 0) \<and>
      (\<exists>m T'' st2'.
         (\<forall>j\<ge>m. remapType j (removeAllAddrspaces 0) T' (freshRemapper (structs st') 0)
             = Some (T'', st2')) \<and>
         structurallyEqual (structs st') T' (structs st2') T''))"
proof -
  have c: "closedType (length list_context) (IdentifiedStruct 0)"
    by (simp add: closedType_def list_context_def)
  from list_context_run obtain st' where
    run: "remapType 2 (removeAllAddrspaces 0) (IdentifiedStruct 0) (freshRemapper list_context 0)
            = Some (IdentifiedStruct 1, st')"
    by blast
  show ?thesis
    using wf_list_context reachable_freshRemapper c run
      collapse_all_idempotent [OF wf_list_context reachable_freshRemapper c run
        reachable_freshRemapper]
    by blast
qed

section \<open>Properties of the constant materializer\<close>

lemma typeMapperOf_pointer:
  "materializerRemapType (Some (typeMapperOf 1 (removeAllAddrspaces 0))) (PointerType a)
     (freshRemapper [] 0)
   = Inr (PointerType 0, setMapped (PointerType a) (PointerType 0) (freshRemapper [] 0))"
  by (simp add: materializerRemapType_def typeMapperOf_def remapType.simps(2) freshRemapper_def
      removeAllAddrspaces_def)

text \<open>
  C7: for a constant address-space cast, when the mapped operand's type has the address
  space of the cast's rewritten type (the destination the cast targets after the
  rewrite), the materializer returns the mapped operand itself.
\<close>

theorem materialize_folds_cast:
  assumes "materializerRemapType TypeMapper CETy st = Inr (Ty, st1)"
    and "mapConstant Op0 st1 = Inr (Some Src, st2)"
    and "getPointerAddressSpace (getType Src) = Some AS"
    and "getPointerAddressSpace Ty = Some AS"
  shows "materialize TypeMapper mapConstant (Const (ConstantExpr AddrSpaceCast (Op0 # Ops) CETy)) st
           = Inr (Some Src, st2)"
  using assms by (simp add: materialize_def)

theorem materialize_folds_cast_witness:
  "materializerRemapType (Some (typeMapperOf 1 (removeAllAddrspaces 0))) (PointerType 11)
     (freshRemapper [] 0)
     = Inr (PointerType 0, setMapped (PointerType 11) (PointerType 0) (freshRemapper [] 0)) \<and>
   replacementOf (GlobalValue 1 (PointerType 10))
     (setMapped (PointerType 11) (PointerType 0) (freshRemapper [] 0))
     = Inr (Some (GlobalValue 101 (PointerType 0)),
            setMapped (PointerType 11) (PointerType 0) (freshRemapper [] 0)) \<and>
   getPointerAddressSpace (getType (GlobalValue 101 (PointerType 0))) = Some 0 \<and>
   getPointerAddressSpace (PointerType 0) = Some 0 \<and>
   materialize (Some (typeMapperOf 1 (removeAllAddrspaces 0))) replacementOf (Const global_cast)
     (freshRemapper [] 0)
     = Inr (Some (GlobalValue 101 (PointerType 0)),
            setMapped (PointerType 11) (PointerType 0) (freshRemapper [] 0))"
proof -
  have r: "replacementOf (GlobalValue 1 (PointerType 10))
     (setMapped (PointerType 11) (PointerType 0) (freshRemapper [] 0))
     = Inr (Some (GlobalValue 101 (PointerType 0)),
            setMapped (PointerType 11) (PointerType 0) (freshRemapper [] 0))"
    by (simp add: replacementOf_def)
  have g: "getPointerAddressSpace (getType (GlobalValue 101 (PointerType 0))) = Some 0"
    "getPointerAddressSpace (PointerType 0) = Some 0" by simp_all
  show ?thesis
    using typeMapperOf_pointer [of 11] r g
      materialize_folds_cast [where mapConstant = replacementOf
        and ?Op0.0 = "GlobalValue 1 (PointerType 10)" and Ops = "[]",
        OF typeMapperOf_pointer [of 11] r g]
    by (simp add: global_cast_def)
qed

text \<open>
  C10: for every value that is no constant expression the materializer returns null and
  leaves the state alone; for an element-pointer constant expression every normal return
  is null, and it returns so whenever the type mapper and the mapping of the operands
  return.
\<close>

theorem materialize_declines:
  "(\<not> isConstantExpr SrcV \<longrightarrow> materialize TypeMapper mapConstant SrcV st = Inr (None, st)) \<and>
   (materialize TypeMapper mapConstant (Const (ConstantExpr GetElementPtr Ops T)) st = Inr (DstV, st')
      \<longrightarrow> DstV = None) \<and>
   (materializerRemapType TypeMapper T st = Inr (Ty, st1) \<and>
    mapOperands mapConstant Ops st1 = Inr (Ops', st2) \<longrightarrow>
      materialize TypeMapper mapConstant (Const (ConstantExpr GetElementPtr Ops T)) st
        = Inr (None, st2))"
proof (intro conjI impI)
  assume "\<not> isConstantExpr SrcV"
  then show "materialize TypeMapper mapConstant SrcV st = Inr (None, st)"
    by (auto simp: isConstantExpr_def materialize_def split: Value.splits Constant.splits)
next
  assume "materialize TypeMapper mapConstant (Const (ConstantExpr GetElementPtr Ops T)) st
            = Inr (DstV, st')"
  then show "DstV = None"
    by (auto simp: materialize_def split: sum.splits prod.splits)
next
  assume "materializerRemapType TypeMapper T st = Inr (Ty, st1) \<and>
    mapOperands mapConstant Ops st1 = Inr (Ops', st2)"
  then show "materialize TypeMapper mapConstant (Const (ConstantExpr GetElementPtr Ops T)) st
                = Inr (None, st2)"
    by (simp add: materialize_def)
qed

theorem materialize_declines_witness:
  "\<not> isConstantExpr (Argument 0 (PointerType 10)) \<and>
   materialize (Some (typeMapperOf 1 (removeAllAddrspaces 0))) replacementOf
     (Argument 0 (PointerType 10)) (freshRemapper [] 0) = Inr (None, freshRemapper [] 0) \<and>
   \<not> isConstantExpr (Const (GlobalValue 1 (PointerType 10))) \<and>
   materialize (Some (typeMapperOf 1 (removeAllAddrspaces 0))) replacementOf
     (Const (GlobalValue 1 (PointerType 10))) (freshRemapper [] 0) = Inr (None, freshRemapper [] 0) \<and>
   materialize (Some (typeMapperOf 1 (removeAllAddrspaces 0))) replacementOf (Const global_gep)
     (freshRemapper [] 0)
     = Inr (None, setMapped (PointerType 10) (PointerType 0) (freshRemapper [] 0))"
proof -
  have a: "\<not> isConstantExpr (Argument 0 (PointerType 10))"
    "\<not> isConstantExpr (Const (GlobalValue 1 (PointerType 10)))"
    by (simp_all add: isConstantExpr_def)
  have m: "mapOperands replacementOf
             [GlobalValue 1 (PointerType 10), ConstantData 4 (OtherType 64)]
             (setMapped (PointerType 10) (PointerType 0) (freshRemapper [] 0))
           = Inr ([GlobalValue 101 (PointerType 0), ConstantData 4 (OtherType 64)],
                  setMapped (PointerType 10) (PointerType 0) (freshRemapper [] 0))"
    by (simp add: replacementOf_def)
  note d = materialize_declines
    [where TypeMapper = "Some (typeMapperOf 1 (removeAllAddrspaces 0))"
       and mapConstant = replacementOf and st = "freshRemapper [] 0"]
  show ?thesis
    using a d [where SrcV = "Argument 0 (PointerType 10)"]
      d [where SrcV = "Const (GlobalValue 1 (PointerType 10))"]
      d [where Ops = "[GlobalValue 1 (PointerType 10), ConstantData 4 (OtherType 64)]"
           and T = "PointerType 10"] typeMapperOf_pointer [of 10] m
    by (simp add: global_gep_def)
qed

section \<open>Properties of the no-op cast eliminator\<close>

lemma RemoveNoopAddrSpaceCasts_never_reports:
  "RemoveNoopAddrSpaceCasts F = Inr (Changed, F') \<Longrightarrow> Changed = False"
  by (auto simp: RemoveNoopAddrSpaceCasts_def split: sum.splits)

text \<open>
  C4: the eliminator's result \<open>changed\<close> should be true exactly when a no-op cast was
  removed. On \<open>noop_cast_function\<close> the cast is removed and its use rewired to the
  argument, and the function returns false.
\<close>

theorem RemoveNoopAddrSpaceCasts_reports_false_after_removal:
  "RemoveNoopAddrSpaceCasts noop_cast_function =
     Inr (False,
          noop_cast_function\<lparr>fn_body :=
            [\<lparr>inst_id = 1, opcode = OtherOpcode 1, operands = [Argument 0 (PointerType 5)],
              inst_type = OtherType 0\<rparr>]\<rparr>)"
  by (simp add: RemoveNoopAddrSpaceCasts_def noop_cast_function_def replaceAllUsesWith_def
      replaceUsesIn_def replaceUse_def)

lemma findInstruction_map [simp]:
  "findInstruction (map (replaceUsesIn i v) body) j = map_option (replaceUsesIn i v) (findInstruction body j)"
  by (induction body) (auto simp: replaceUsesIn_def)

lemma typeOfValue_rauw [simp]:
  "typeOfValue (replaceAllUsesWith i v body) w = typeOfValue body w"
  by (cases w) (auto simp: replaceAllUsesWith_def option.map_comp comp_def replaceUsesIn_def)

lemma findInstruction_distinct:
  "distinct (map inst_id body) \<Longrightarrow> I \<in> set body \<Longrightarrow> findInstruction body (inst_id I) = Some I"
  by (induction body) (auto simp: rev_image_eqI)

lemma eraseAll_filter: "eraseAll cs body = filter (\<lambda>I. inst_id I \<notin> set cs) body"
  by (induction cs arbitrary: body) (auto intro: filter_cong)

lemma isNoopCast_rauw:
  assumes "distinct (map inst_id body)" "I \<in> set body" "isNoopCast body I"
    "operands I = v # ops"
  shows "isNoopCast (replaceAllUsesWith (inst_id I) v body) (replaceUsesIn (inst_id I) v J)
         = isNoopCast body J"
proof -
  have tI: "typeOfValue body (InstructionValue (inst_id I)) = Some (inst_type I)"
    using assms by (simp add: findInstruction_distinct)
  obtain T where T: "typeOfValue body v = Some T"
    "getPointerAddressSpace T = getPointerAddressSpace (inst_type I)"
    using assms by (auto simp: isNoopCast_def split: option.splits)
  show ?thesis
  proof (cases "operands J")
    case Nil
    then show ?thesis by (simp add: isNoopCast_def replaceUsesIn_def)
  next
    case (Cons w ws)
    then show ?thesis using tI T
      by (auto simp: isNoopCast_def replaceUsesIn_def replaceUse_def split: option.splits)
  qed
qed

lemma scan_step_other:
  assumes "\<not> isNoopCast (earlier @ I # rest) I"
    and "scanNoopCasts earlier (I # rest) nc = Inr r"
  shows "scanNoopCasts (earlier @ [I]) rest nc = Inr r"
  using assms
  by (auto simp: isNoopCast_def split: if_splits list.splits option.splits)

lemma scan_step_noop:
  assumes "isNoopCast (earlier @ I # rest) I"
    and "scanNoopCasts earlier (I # rest) nc = Inr r"
  shows "\<exists>v ops. operands I = v # ops \<and> v \<noteq> InstructionValue (inst_id I) \<and>
           scanNoopCasts (replaceAllUsesWith (inst_id I) v (earlier @ [I]))
             (replaceAllUsesWith (inst_id I) v rest) (nc @ [inst_id I]) = Inr r"
  using assms
  by (auto simp: isNoopCast_def split: if_splits list.splits option.splits)

lemma rauw_append:
  "replaceAllUsesWith i v (xs @ ys) = replaceAllUsesWith i v xs @ replaceAllUsesWith i v ys"
  by (simp add: replaceAllUsesWith_def)

lemma map_inst_id_rauw [simp]: "map inst_id (replaceAllUsesWith i v body) = map inst_id body"
  by (simp add: replaceAllUsesWith_def replaceUsesIn_def)

lemma noopCastIds_rauw:
  assumes "distinct (map inst_id body)" "I \<in> set body" "isNoopCast body I"
    "operands I = v # ops"
  shows "noopCastIds (replaceAllUsesWith (inst_id I) v body) (replaceAllUsesWith (inst_id I) v Is)
         = noopCastIds body Is"
proof -
  have "\<And>J. isNoopCast (replaceAllUsesWith (inst_id I) v body) (replaceUsesIn (inst_id I) v J)
         = isNoopCast body J"
    using isNoopCast_rauw [OF assms] .
  moreover have "\<And>J. inst_id (replaceUsesIn (inst_id I) v J) = inst_id J"
    by (simp add: replaceUsesIn_def)
  ultimately show ?thesis
    unfolding noopCastIds_def replaceAllUsesWith_def
    by (auto simp: image_iff) (metis+)
qed

lemma usesOf_rauw:
  "usesOf (replaceAllUsesWith i v body) \<subseteq> (usesOf body - {InstructionValue i}) \<union> {v}"
  by (auto simp: usesOf_def replaceAllUsesWith_def replaceUsesIn_def replaceUse_def)

lemma rewireInstruction_empty [simp]: "rewireInstruction \<rho> {} J = J"
proof -
  have "rewire \<rho> {} = (\<lambda>v. v)"
    by (auto simp: rewire_def fun_eq_iff split: Value.splits)
  then show ?thesis by (simp add: rewireInstruction_def)
qed

lemma noopCastIds_Cons:
  "noopCastIds body (I # Is) =
     (if isNoopCast body I then insert (inst_id I) (noopCastIds body Is) else noopCastIds body Is)"
  by (auto simp: noopCastIds_def)

lemma noopCastIds_subset: "noopCastIds body Is \<subseteq> inst_id ` set Is"
  by (auto simp: noopCastIds_def)

lemma rewire_step:
  assumes "i \<notin> R'" "v \<noteq> InstructionValue i"
  shows "rewire (\<rho>'(i := rewire \<rho>' R' v)) (insert i R') w = rewire \<rho>' R' (replaceUse i v w)"
  using assms by (auto simp: rewire_def replaceUse_def split: Value.splits)

lemma noopCastIds_member:
  assumes "distinct (map inst_id body)" "J \<in> set body"
  shows "inst_id J \<in> noopCastIds body body \<longleftrightarrow> isNoopCast body J"
proof
  assume "inst_id J \<in> noopCastIds body body"
  then obtain I where I: "I \<in> set body" "isNoopCast body I" "inst_id I = inst_id J"
    by (auto simp: noopCastIds_def)
  then have "I = J" using assms by (metis findInstruction_distinct option.inject)
  then show "isNoopCast body J" using I by simp
next
  assume "isNoopCast body J"
  then show "inst_id J \<in> noopCastIds body body" using assms by (auto simp: noopCastIds_def)
qed

text \<open>
  The scan, from any point of the walk: the casts it collects are the no-op casts still
  ahead, and what it leaves is the body with every use of a collected cast rewired,
  where a cast is rewired to its own operand, rewired in turn.
\<close>

lemma scan_spec:
  assumes "scanNoopCasts earlier rest nc = Inr (scanned, nc')"
      and "distinct (map inst_id (earlier @ rest))"
      and "\<forall>c \<in> set nc. InstructionValue c \<notin> usesOf (earlier @ rest)"
  shows "\<exists>\<rho>. set nc' = set nc \<union> noopCastIds (earlier @ rest) rest \<and>
            scanned = map (rewireInstruction \<rho> (noopCastIds (earlier @ rest) rest)) (earlier @ rest) \<and>
            (\<forall>I \<in> set rest. isNoopCast (earlier @ rest) I \<longrightarrow>
                (\<exists>v ops. operands I = v # ops \<and>
                   \<rho> (inst_id I) = rewire \<rho> (noopCastIds (earlier @ rest) rest) v)) \<and>
            (\<forall>c \<in> noopCastIds (earlier @ rest) rest.
                \<rho> c \<notin> InstructionValue ` (noopCastIds (earlier @ rest) rest \<union> set nc))"
  using assms
proof (induction "length rest" arbitrary: earlier rest nc)
  case 0
  then show ?case by (simp add: noopCastIds_def)
next
  case (Suc n)
  then obtain I rest' where rest: "rest = I # rest'" and n: "n = length rest'"
    by (cases rest) auto
  let ?cur = "earlier @ I # rest'"
  have dist: "distinct (map inst_id ?cur)" using Suc.prems rest by simp
  have Iin: "I \<in> set ?cur" by simp
  show ?case
  proof (cases "isNoopCast ?cur I")
    case False
    have "scanNoopCasts (earlier @ [I]) rest' nc = Inr (scanned, nc')"
      using scan_step_other [OF False] Suc.prems(1) rest by simp
    from Suc.hyps(1) [OF n this] Suc.prems(2,3) rest
    obtain \<rho> where
      "set nc' = set nc \<union> noopCastIds ?cur rest' \<and>
       scanned = map (rewireInstruction \<rho> (noopCastIds ?cur rest')) ?cur \<and>
       (\<forall>J \<in> set rest'. isNoopCast ?cur J \<longrightarrow>
           (\<exists>v ops. operands J = v # ops \<and> \<rho> (inst_id J) = rewire \<rho> (noopCastIds ?cur rest') v)) \<and>
       (\<forall>c \<in> noopCastIds ?cur rest'. \<rho> c \<notin> InstructionValue ` (noopCastIds ?cur rest' \<union> set nc))"
      by auto
    then show ?thesis using False rest
      by (intro exI [of _ \<rho>]) (simp add: noopCastIds_Cons)
  next
    case True
    let ?i = "inst_id I"
    from scan_step_noop [OF True] Suc.prems(1) rest
    obtain v ops where ops: "operands I = v # ops" and vne: "v \<noteq> InstructionValue ?i"
      and sc: "scanNoopCasts (replaceAllUsesWith ?i v (earlier @ [I]))
                 (replaceAllUsesWith ?i v rest') (nc @ [?i]) = Inr (scanned, nc')"
      by blast
    let ?b' = "replaceAllUsesWith ?i v (earlier @ [I])"
    let ?r' = "replaceAllUsesWith ?i v rest'"
    have cur': "?b' @ ?r' = replaceAllUsesWith ?i v ?cur"
      by (simp add: replaceAllUsesWith_def)
    have n': "n = length ?r'" using n by (simp add: replaceAllUsesWith_def)
    have dist': "distinct (map inst_id (?b' @ ?r'))"
      using dist unfolding cur' by simp
    have vuse: "v \<in> usesOf ?cur" using ops by (auto simp: usesOf_def)
    have nouse': "\<forall>c \<in> set (nc @ [?i]). InstructionValue c \<notin> usesOf (?b' @ ?r')"
    proof
      fix c assume c: "c \<in> set (nc @ [?i])"
      have "InstructionValue c \<noteq> v"
        using c vne vuse Suc.prems(3) rest by auto
      moreover have "c \<noteq> ?i \<Longrightarrow> InstructionValue c \<notin> usesOf ?cur"
        using c Suc.prems(3) rest by auto
      ultimately show "InstructionValue c \<notin> usesOf (?b' @ ?r')"
        unfolding cur' using usesOf_rauw [of ?i v ?cur] by auto
    qed
    let ?R' = "noopCastIds ?cur rest'"
    have R'eq: "noopCastIds (?b' @ ?r') ?r' = ?R'"
      unfolding cur' by (rule noopCastIds_rauw [OF dist Iin True ops])
    have noop': "\<And>J. isNoopCast (?b' @ ?r') (replaceUsesIn ?i v J) = isNoopCast ?cur J"
      unfolding cur' by (rule isNoopCast_rauw [OF dist Iin True ops])
    from Suc.hyps(1) [OF n' sc dist' nouse'] R'eq
    obtain \<rho>' where
      nc': "set nc' = set (nc @ [?i]) \<union> ?R'" and
      scd: "scanned = map (rewireInstruction \<rho>' ?R') (?b' @ ?r')" and
      ops': "\<forall>J \<in> set ?r'. isNoopCast (?b' @ ?r') J \<longrightarrow>
           (\<exists>w ws. operands J = w # ws \<and> \<rho>' (inst_id J) = rewire \<rho>' ?R' w)" and
      fresh': "\<forall>c \<in> ?R'. \<rho>' c \<notin> InstructionValue ` (?R' \<union> set (nc @ [?i]))"
      by auto
    have inotin: "?i \<notin> ?R'"
      using dist noopCastIds_subset [of ?cur rest'] by auto
    define \<rho> where "\<rho> = \<rho>'(?i := rewire \<rho>' ?R' v)"
    have R: "noopCastIds ?cur (I # rest') = insert ?i ?R'"
      using True by (simp add: noopCastIds_Cons)
    have key: "\<And>w. rewire \<rho> (insert ?i ?R') w = rewire \<rho>' ?R' (replaceUse ?i v w)"
      unfolding \<rho>_def by (rule rewire_step [OF inotin vne])
    have keyI: "\<And>J. rewireInstruction \<rho> (insert ?i ?R') J
                  = rewireInstruction \<rho>' ?R' (replaceUsesIn ?i v J)"
      by (simp add: rewireInstruction_def replaceUsesIn_def key)
    have c1: "set nc' = set nc \<union> insert ?i ?R'" using nc' by auto
    have c2: "scanned = map (rewireInstruction \<rho> (insert ?i ?R')) ?cur"
      unfolding scd cur' by (simp add: replaceAllUsesWith_def keyI)
    have vv: "replaceUse ?i v v = v" using vne by (simp add: replaceUse_def)
    have c3: "\<forall>J \<in> set (I # rest'). isNoopCast ?cur J \<longrightarrow>
                (\<exists>w ws. operands J = w # ws \<and> \<rho> (inst_id J) = rewire \<rho> (insert ?i ?R') w)"
    proof (intro ballI impI)
      fix J assume J: "J \<in> set (I # rest')" and nJ: "isNoopCast ?cur J"
      show "\<exists>w ws. operands J = w # ws \<and> \<rho> (inst_id J) = rewire \<rho> (insert ?i ?R') w"
      proof (cases "J = I")
        case True
        have "\<rho> ?i = rewire \<rho>' ?R' v" by (simp add: \<rho>_def)
        then show ?thesis using True ops key [of v] vv by simp
      next
        case False
        then have Jr: "J \<in> set rest'" using J by simp
        then have Jne: "inst_id J \<noteq> ?i" using dist by (auto simp: image_iff)
        have "replaceUsesIn ?i v J \<in> set ?r'" using Jr by (simp add: replaceAllUsesWith_def)
        with ops' noop' [of J] nJ
        obtain w ws where w: "operands (replaceUsesIn ?i v J) = w # ws"
          "\<rho>' (inst_id (replaceUsesIn ?i v J)) = rewire \<rho>' ?R' w"
          by blast
        then obtain w0 ws0 where w0: "operands J = w0 # ws0" "w = replaceUse ?i v w0"
          by (cases "operands J") (auto simp: replaceUsesIn_def)
        have "\<rho> (inst_id J) = \<rho>' (inst_id J)" using Jne by (simp add: \<rho>_def)
        also have "\<dots> = rewire \<rho>' ?R' w" using w(2) by (simp add: replaceUsesIn_def)
        also have "\<dots> = rewire \<rho> (insert ?i ?R') w0" using w0(2) key by simp
        finally show ?thesis using w0(1) by blast
      qed
    qed
    have vnc: "v \<notin> InstructionValue ` set nc"
      using vuse Suc.prems(3) rest by auto
    have c4: "\<forall>c \<in> insert ?i ?R'. \<rho> c \<notin> InstructionValue ` (insert ?i ?R' \<union> set nc)"
    proof
      fix c assume c: "c \<in> insert ?i ?R'"
      show "\<rho> c \<notin> InstructionValue ` (insert ?i ?R' \<union> set nc)"
      proof (cases "c = ?i")
        case True
        then have rc: "\<rho> c = rewire \<rho>' ?R' v" by (simp add: \<rho>_def)
        show ?thesis
        proof (cases "\<exists>c'. v = InstructionValue c' \<and> c' \<in> ?R'")
          case True
          then obtain c' where "v = InstructionValue c'" "c' \<in> ?R'" by blast
          then have "\<rho> c = \<rho>' c'" using rc by (simp add: rewire_def)
          then show ?thesis using fresh' \<open>c' \<in> ?R'\<close> by auto
        next
          case False
          then have "\<rho> c = v" using rc by (auto simp: rewire_def split: Value.splits)
          then show ?thesis using False vne vnc by auto
        qed
      next
        case False
        then have "c \<in> ?R'" "\<rho> c = \<rho>' c" using c by (auto simp: \<rho>_def)
        then show ?thesis using fresh' by auto
      qed
    qed
    show ?thesis
      unfolding rest R using c1 c2 c3 c4 by (intro exI [of _ \<rho>]) simp
  qed
qed

lemma cast_chain_run:
  "RemoveNoopAddrSpaceCasts cast_chain_function = Inr (False, cast_chain_cleaned)"
  by (simp add: RemoveNoopAddrSpaceCasts_def cast_chain_function_def cast_chain_cleaned_def
      replaceAllUsesWith_def replaceUsesIn_def replaceUse_def)

text \<open>On a body with well-formed casts the scan comes back: a replacement keeps the
  casts well formed, and no cast is its own operand.\<close>

lemma RemoveNoopAddrSpaceCasts_spec:
  assumes "distinct (map inst_id (fn_body F))"
      and "RemoveNoopAddrSpaceCasts F = Inr (Changed, F')"
  shows "\<exists>\<rho>.
     fn_body F' = map (rewireInstruction \<rho> (removedCasts F))
                    (filter (\<lambda>J. \<not> isNoopCast (fn_body F) J) (fn_body F)) \<and>
     (\<forall>I \<in> set (fn_body F). isNoopCast (fn_body F) I \<longrightarrow>
        (\<exists>Op0 ops. operands I = Op0 # ops \<and> \<rho> (inst_id I) = rewire \<rho> (removedCasts F) Op0)) \<and>
     (\<forall>I \<in> set (fn_body F). isNoopCast (fn_body F) I \<longrightarrow>
        inst_id I \<notin> inst_id ` set (fn_body F')) \<and>
     (\<forall>J \<in> set (fn_body F'). \<forall>c \<in> removedCasts F. InstructionValue c \<notin> set (operands J))"
proof -
  let ?body = "fn_body F"
  let ?R = "removedCasts F"
  from assms(2) obtain scanned nc' where
    sc: "scanNoopCasts [] ?body [] = Inr (scanned, nc')" and
    F': "F' = F\<lparr>fn_body := eraseAll nc' scanned\<rparr>"
    by (auto simp: RemoveNoopAddrSpaceCasts_def split: sum.splits)
  from scan_spec [OF sc] assms(1)
  obtain \<rho> where
    nc': "set nc' = ?R" and
    scd: "scanned = map (rewireInstruction \<rho> ?R) ?body" and
    ops: "\<forall>I \<in> set ?body. isNoopCast ?body I \<longrightarrow>
            (\<exists>v ops. operands I = v # ops \<and> \<rho> (inst_id I) = rewire \<rho> ?R v)" and
    fresh: "\<forall>c \<in> ?R. \<rho> c \<notin> InstructionValue ` ?R"
    by (auto simp: removedCasts_def)
  have mem: "\<And>J. J \<in> set ?body \<Longrightarrow> inst_id J \<in> ?R \<longleftrightarrow> isNoopCast ?body J"
    unfolding removedCasts_def by (rule noopCastIds_member [OF assms(1)])
  have body': "fn_body F' = map (rewireInstruction \<rho> ?R)
                    (filter (\<lambda>J. \<not> isNoopCast ?body J) ?body)"
  proof -
    have "fn_body F' = filter (\<lambda>I. inst_id I \<notin> ?R) (map (rewireInstruction \<rho> ?R) ?body)"
      by (simp add: F' eraseAll_filter nc' scd)
    also have "\<dots> = map (rewireInstruction \<rho> ?R) (filter (\<lambda>J. inst_id J \<notin> ?R) ?body)"
      by (simp add: filter_map comp_def rewireInstruction_def)
    also have "filter (\<lambda>J. inst_id J \<notin> ?R) ?body = filter (\<lambda>J. \<not> isNoopCast ?body J) ?body"
      by (rule filter_cong) (auto simp: mem)
    finally show ?thesis .
  qed
  have gone: "\<forall>I \<in> set ?body. isNoopCast ?body I \<longrightarrow> inst_id I \<notin> inst_id ` set (fn_body F')"
  proof (intro ballI impI notI)
    fix I assume I: "I \<in> set ?body" "isNoopCast ?body I"
      and "inst_id I \<in> inst_id ` set (fn_body F')"
    then obtain J where J: "J \<in> set ?body" "\<not> isNoopCast ?body J" "inst_id J = inst_id I"
      unfolding body' by (auto simp: rewireInstruction_def)
    then have "inst_id J \<in> ?R" using I by (auto simp: removedCasts_def noopCastIds_def)
    then show False using mem J by blast
  qed
  have noref: "\<forall>J \<in> set (fn_body F'). \<forall>c \<in> ?R. InstructionValue c \<notin> set (operands J)"
  proof (intro ballI notI)
    fix J c assume J: "J \<in> set (fn_body F')" and c: "c \<in> ?R"
      and u: "InstructionValue c \<in> set (operands J)"
    then obtain v where v: "rewire \<rho> ?R v = InstructionValue c"
      unfolding body' by (auto simp: rewireInstruction_def)
    show False
    proof (cases "\<exists>c'. v = InstructionValue c' \<and> c' \<in> ?R")
      case True
      then obtain c' where "v = InstructionValue c'" "c' \<in> ?R" by blast
      then have "\<rho> c' = InstructionValue c" using v by (simp add: rewire_def)
      then show False using fresh c \<open>c' \<in> ?R\<close> by (metis imageI)
    next
      case False
      then have "rewire \<rho> ?R v = v" by (auto simp: rewire_def split: Value.splits)
      then show False using v False c by auto
    qed
  qed
  show ?thesis using body' ops gone noref by blast
qed

lemma castsWellFormedD:
  assumes "castsWellFormed rank body" "I \<in> set body" "opcode I = AddrSpaceCast"
  shows "\<exists>Op0 ops SrcTy SrcAS DestAS.
           operands I = Op0 # ops \<and> typeOfValue body Op0 = Some SrcTy \<and>
           getPointerAddressSpace SrcTy = Some SrcAS \<and>
           getPointerAddressSpace (inst_type I) = Some DestAS \<and>
           (\<forall>j. Op0 = InstructionValue j \<longrightarrow> rank j < rank (inst_id I))"
proof -
  have *: "getPointerAddressSpace (inst_type I) \<noteq> None \<and>
        (case operands I of
           [] \<Rightarrow> False
         | Op0 # _ \<Rightarrow>
            (case typeOfValue body Op0 of
               None \<Rightarrow> False
             | Some SrcTy \<Rightarrow> getPointerAddressSpace SrcTy \<noteq> None) \<and>
            (case Op0 of
               InstructionValue j \<Rightarrow> rank j < rank (inst_id I)
             | _ \<Rightarrow> True))"
    using assms unfolding castsWellFormed_def by blast
  then obtain Op0 ops where o: "operands I = Op0 # ops" by (cases "operands I") auto
  with * obtain SrcTy where t: "typeOfValue body Op0 = Some SrcTy"
    by (cases "typeOfValue body Op0") auto
  have r: "\<forall>j. Op0 = InstructionValue j \<longrightarrow> rank j < rank (inst_id I)"
    using * o by (cases Op0) auto
  show ?thesis using * o t r by auto
qed

lemma castsWellFormed_rauw:
  assumes W: "castsWellFormed rank body" and I: "I \<in> set body" "opcode I = AddrSpaceCast"
    and ops: "operands I = Op0 # ops"
  shows "castsWellFormed rank (replaceAllUsesWith (inst_id I) Op0 body)"
  unfolding castsWellFormed_def
proof (intro ballI impI)
  fix K' assume K': "K' \<in> set (replaceAllUsesWith (inst_id I) Op0 body)"
    and c: "opcode K' = AddrSpaceCast"
  from K' obtain K where K: "K \<in> set body" "K' = replaceUsesIn (inst_id I) Op0 K"
    by (auto simp: replaceAllUsesWith_def)
  have cK: "opcode K = AddrSpaceCast" using c K by (simp add: replaceUsesIn_def)
  from castsWellFormedD [OF W I] ops obtain SrcTy where
    t0: "typeOfValue body Op0 = Some SrcTy" "getPointerAddressSpace SrcTy \<noteq> None"
    and r0: "\<And>j. Op0 = InstructionValue j \<Longrightarrow> rank j < rank (inst_id I)"
    by auto
  from castsWellFormedD [OF W K(1) cK] obtain w ws Tw where
    oK: "operands K = w # ws" and tK: "getPointerAddressSpace (inst_type K) \<noteq> None"
    and tw: "typeOfValue body w = Some Tw" "getPointerAddressSpace Tw \<noteq> None"
    and rw: "\<And>j. w = InstructionValue j \<Longrightarrow> rank j < rank (inst_id K)"
    by auto
  show "getPointerAddressSpace (inst_type K') \<noteq> None \<and>
        (case operands K' of
           [] \<Rightarrow> False
         | Op0' # _ \<Rightarrow>
            (case typeOfValue (replaceAllUsesWith (inst_id I) Op0 body) Op0' of
               None \<Rightarrow> False
             | Some SrcTy \<Rightarrow> getPointerAddressSpace SrcTy \<noteq> None) \<and>
            (case Op0' of
               InstructionValue j \<Rightarrow> rank j < rank (inst_id K')
             | _ \<Rightarrow> True))"
  proof (cases "w = InstructionValue (inst_id I)")
    case True
    have "rank (inst_id I) < rank (inst_id K)" using rw True by simp
    then have "\<And>j. Op0 = InstructionValue j \<Longrightarrow> rank j < rank (inst_id K)"
      using r0 by fastforce
    then show ?thesis using True oK tK t0 K(2)
      by (auto simp: replaceUsesIn_def replaceUse_def split: Value.splits)
  next
    case False
    then show ?thesis using oK tK tw rw K(2)
      by (auto simp: replaceUsesIn_def replaceUse_def split: Value.splits)
  qed
qed

lemma scan_returns:
  assumes "castsWellFormed rank (earlier @ rest)"
  shows "\<exists>r. scanNoopCasts earlier rest nc = Inr r"
  using assms
proof (induction "length rest" arbitrary: earlier rest nc)
  case 0
  then show ?case by simp
next
  case (Suc n)
  then obtain I rest' where rest: "rest = I # rest'" and n: "n = length rest'"
    by (cases rest) auto
  let ?body = "earlier @ I # rest'"
  have W: "castsWellFormed rank ?body" using Suc.prems rest by simp
  have same: "\<exists>r. scanNoopCasts (earlier @ [I]) rest' nc = Inr r"
    by (rule Suc.hyps(1) [OF n]) (use W in simp)
  show ?case
  proof (cases "opcode I = AddrSpaceCast")
    case False
    then show ?thesis using same rest by simp
  next
    case True
    from castsWellFormedD [OF W _ True] obtain Op0 ops SrcTy SrcAS DestAS where
      o: "operands I = Op0 # ops" and t: "typeOfValue ?body Op0 = Some SrcTy"
      and a: "getPointerAddressSpace SrcTy = Some SrcAS"
        "getPointerAddressSpace (inst_type I) = Some DestAS"
      and r: "\<And>j. Op0 = InstructionValue j \<Longrightarrow> rank j < rank (inst_id I)"
      by auto
    show ?thesis
    proof (cases "SrcAS = DestAS")
      case False
      then show ?thesis using same rest True o t a by simp
    next
      case eq: True
      have ne: "Op0 \<noteq> InstructionValue (inst_id I)" using r by fastforce
      have W': "castsWellFormed rank
          (replaceAllUsesWith (inst_id I) Op0 (earlier @ [I])
             @ replaceAllUsesWith (inst_id I) Op0 rest')"
        using castsWellFormed_rauw [OF W _ True o] by (simp add: replaceAllUsesWith_def)
      have n': "n = length (replaceAllUsesWith (inst_id I) Op0 rest')"
        using n by (simp add: replaceAllUsesWith_def)
      from Suc.hyps(1) [OF n' W']
      show ?thesis using rest True o t a eq ne by simp
    qed
  qed
qed

lemma RemoveNoopAddrSpaceCasts_returns:
  assumes "castsWellFormed rank (fn_body F)"
  shows "\<exists>F'. RemoveNoopAddrSpaceCasts F = Inr (False, F')"
proof -
  from scan_returns [of rank "[]" "fn_body F" "[]"] assms
  obtain r where "scanNoopCasts [] (fn_body F) [] = Inr r" by auto
  then show ?thesis by (cases r) (simp add: RemoveNoopAddrSpaceCasts_def)
qed

text \<open>
  C8: on a function whose instructions are distinct objects and whose casts are well
  formed, the eliminator returns, and the body it leaves is the body without the no-op
  casts, every use of a removed cast rewired: there is an assignment \<open>\<rho>\<close> of a value to
  each removed cast, which is the cast's operand (itself rewired, when that operand was a
  removed cast), such that every operand that was a removed cast is now \<open>\<rho>\<close> of it and
  every other operand is as it was. No removed cast is among the instructions left, and
  none is an operand of them.
\<close>

theorem RemoveNoopAddrSpaceCasts_removes_and_rewires:
  assumes "distinct (map inst_id (fn_body F))"
      and "castsWellFormed rank (fn_body F)"
  shows "\<exists>F'. RemoveNoopAddrSpaceCasts F = Inr (False, F') \<and>
     (\<exists>\<rho>.
       fn_body F' = map (rewireInstruction \<rho> (removedCasts F))
                      (filter (\<lambda>J. \<not> isNoopCast (fn_body F) J) (fn_body F)) \<and>
       (\<forall>I \<in> set (fn_body F). isNoopCast (fn_body F) I \<longrightarrow>
          (\<exists>Op0 ops. operands I = Op0 # ops \<and> \<rho> (inst_id I) = rewire \<rho> (removedCasts F) Op0)) \<and>
       (\<forall>I \<in> set (fn_body F). isNoopCast (fn_body F) I \<longrightarrow>
          inst_id I \<notin> inst_id ` set (fn_body F')) \<and>
       (\<forall>J \<in> set (fn_body F'). \<forall>c \<in> removedCasts F. InstructionValue c \<notin> set (operands J)))"
proof -
  from RemoveNoopAddrSpaceCasts_returns [OF assms(2)] obtain F' where
    run: "RemoveNoopAddrSpaceCasts F = Inr (False, F')" by blast
  from RemoveNoopAddrSpaceCasts_spec [OF assms(1) run] run show ?thesis by blast
qed

theorem RemoveNoopAddrSpaceCasts_removes_and_rewires_witness:
  "distinct (map inst_id (fn_body cast_chain_function)) \<and>
   castsWellFormed (\<lambda>i. i) (fn_body cast_chain_function) \<and>
   (\<exists>F'. RemoveNoopAddrSpaceCasts cast_chain_function = Inr (False, F') \<and> F' = cast_chain_cleaned \<and>
   (\<exists>\<rho>.
     fn_body F' = map (rewireInstruction \<rho> (removedCasts cast_chain_function))
        (filter (\<lambda>J. \<not> isNoopCast (fn_body cast_chain_function) J) (fn_body cast_chain_function)) \<and>
     (\<forall>I \<in> set (fn_body cast_chain_function). isNoopCast (fn_body cast_chain_function) I \<longrightarrow>
        (\<exists>Op0 ops. operands I = Op0 # ops \<and>
           \<rho> (inst_id I) = rewire \<rho> (removedCasts cast_chain_function) Op0)) \<and>
     (\<forall>I \<in> set (fn_body cast_chain_function). isNoopCast (fn_body cast_chain_function) I \<longrightarrow>
        inst_id I \<notin> inst_id ` set (fn_body F')) \<and>
     (\<forall>J \<in> set (fn_body F'). \<forall>c \<in> removedCasts cast_chain_function.
        InstructionValue c \<notin> set (operands J))))"
proof -
  have d: "distinct (map inst_id (fn_body cast_chain_function))"
    by (simp add: cast_chain_function_def)
  have w: "castsWellFormed (\<lambda>i. i) (fn_body cast_chain_function)"
    by (simp add: castsWellFormed_def cast_chain_function_def)
  show ?thesis
    using d w cast_chain_run
      RemoveNoopAddrSpaceCasts_removes_and_rewires [OF d w]
    by auto
qed

section \<open>Names in the module\<close>






lemma table_same:
  assumes "distinct S" "mset S' = mset S"
  shows "distinct S' \<and> set S' = set S"
  using assms mset_eq_imp_distinct_iff [of S' S] mset_eq_setD [of S' S] by blast

lemma symbolTable_unnamed_global [simp]:
  "gv_name G = [] \<Longrightarrow> symbolTable (M\<lparr>globals := globals M @ [G]\<rparr>) = symbolTable M"
  by (simp add: symbolTable_def valueNames_def)

lemma symbolTable_unnamed_alias [simp]:
  "ga_name G = [] \<Longrightarrow> symbolTable (M\<lparr>aliases := aliases M @ [G]\<rparr>) = symbolTable M"
  by (simp add: symbolTable_def valueNames_def)

lemma symbolTable_unnamed_function [simp]:
  "fn_name G = [] \<Longrightarrow> symbolTable (M\<lparr>functionList := functionList M @ [G]\<rparr>) = symbolTable M"
  by (simp add: symbolTable_def valueNames_def)

lemma symbolTable_LastUnique [simp]:
  "symbolTable (M\<lparr>LastUnique := u\<rparr>) = symbolTable M"
  by (simp add: symbolTable_def valueNames_def)









































text \<open>The collision: the first original moves to a numbered name, and both new functions
  get the names of their originals.\<close>

lemma colliding_declare:
  "map_sum id (\<lambda>s. map fn_name (functionList (fst s)))
     (forEach [0..<2] (declareFunction 3 (removeAllAddrspaces 0)) (colliding_module, freshRemapper [] 0))
   = Inr [''f.bad.1'', ''f.bad.bad'', ''f'', ''f.bad'']"
  by (simp add: removeAddrspaces_def rebuild_def Let_def declareGlobal_def declareAlias_def
      declareFunction_def defineFunction_def addGlobal_def addAlias_def addFunction_def
      setGlobalName_def setAliasName_def setFunctionName_def claimName_def symbolTable_def
      valueNames_def eraseOriginals_def eraseFunctionAt_def plainClone_def noRemangling_def
      RemoveNoopAddrSpaceCasts_def freshRemapper_def remapType.simps(2) setMapped_def
      removeAllAddrspaces_def eval_nat_numeral moduleOf_def colliding_module_def nextUnique.simps numbered_def
      decimal.simps digit_def upt_rec)

lemma small_module_run:
  "\<exists>TypeRemapper.
     removeAddrspaces 3 (removeAllAddrspaces 0) plainClone noRemangling small_module [] 0
       = Inr (True, small_module_rewritten, TypeRemapper)"
  by (simp add: removeAddrspaces_def rebuild_def Let_def declareGlobal_def declareAlias_def
      declareFunction_def defineFunction_def addGlobal_def addAlias_def addFunction_def
      setGlobalName_def setAliasName_def setFunctionName_def claimName_def symbolTable_def
      valueNames_def eraseOriginals_def eraseFunctionAt_def plainClone_def noRemangling_def
      RemoveNoopAddrSpaceCasts_def freshRemapper_def remapType.simps(2) setMapped_def
      removeAllAddrspaces_def eval_nat_numeral small_module_def small_module_rewritten_def)

section \<open>The pass comes back\<close>



lemma closedType_pointer [simp]: "closedType N (PointerType a)"
  by (simp add: closedType_def)






















section \<open>Properties of the pass\<close>

text \<open>
  C3: after the pass no global variable, function or alias should have a declared address
  space outside the image of the policy. On \<open>small_module\<close>, under the policy that sends
  every address space to 0, the global and the alias end in address space 0 and the
  function stays in address space 5, outside the image: line 310 passes
  \<^verbatim>\<open>F->getAddressSpace()\<close> on as it is, where lines 259 and 279 send the address space
  through the remapper.
\<close>

theorem removeAddrspaces_keeps_function_addrspace:
  "moduleOf (removeAddrspaces 3 (removeAllAddrspaces 0) plainClone noRemangling small_module [] 0)
     = Some small_module_rewritten \<and>
   map gv_addrspace (globals small_module_rewritten) = [0] \<and>
   map ga_addrspace (aliases small_module_rewritten) = [0] \<and>
   map fn_addrspace (functionList small_module_rewritten) = [5] \<and>
   5 \<notin> range (removeAllAddrspaces 0)"
  using small_module_run
  by (auto simp: moduleOf_def small_module_rewritten_def removeAllAddrspaces_def)




end
